theory Spec2Isabelle
  imports Complex_Main
begin

section \<open>The lightness adjuster of \<^verbatim>\<open>color-palette.js\<close>\<close>

text \<open>
  The repository is one JavaScript function, \<^verbatim>\<open>adjustOklchLightness\<close>. It reads a CSS custom
  property, trims it, matches it against a regular expression, parses the three captured
  groups with \<^verbatim>\<open>parseFloat\<close>, darkens or lightens the first one, clamps it with
  \<^verbatim>\<open>Math.min\<close> and \<^verbatim>\<open>Math.max\<close>, and prints the three numbers with \<^verbatim>\<open>toFixed(4)\<close>.

  The embedding below follows the function line by line. The language primitives it calls are
  modelled after ECMA-262: strings are lists of code units (here \<^typ>\<open>char\<close>, so the code units
  U+0000 to U+00FF), Numbers are IEEE 754 binary64 values with round-to-nearest-even, the
  regular expression is run by a backtracking matcher, and every place where a primitive can
  throw is a branch that returns an error value.
\<close>

subsection \<open>Strings\<close>

text \<open>
  \<^verbatim>\<open>\s\<close> and \<^verbatim>\<open>String.prototype.trim\<close> use the same class: WhiteSpace and LineTerminator. Within
  U+0000 to U+00FF these are TAB, LF, VT, FF, CR, SPACE and NO-BREAK SPACE.
\<close>

definition is_space :: "char \<Rightarrow> bool" where
  "is_space c = (c \<in> set [CHR 0x09, CHR 0x0A, CHR 0x0B, CHR 0x0C, CHR 0x0D, CHR 0x20, CHR 0xA0])"

definition is_digit :: "char \<Rightarrow> bool" where
  "is_digit c = (c \<in> set ''0123456789'')"

definition digit_val :: "char \<Rightarrow> int" where
  "digit_val c = of_char c - 48"

definition digit_char :: "int \<Rightarrow> char" where
  "digit_char d = ''0123456789'' ! nat d"

definition trim :: "string \<Rightarrow> string" where
  "trim s = rev (dropWhile is_space (rev (dropWhile is_space s)))"

subsection \<open>Regular expressions\<close>

text \<open>
  The pattern \<^verbatim>\<open>/oklch\(\s*([\d.]+)\s+([\d.]+)\s+([\d.]+)\s*\)/\<close> is a sequence of literal text,
  greedy quantifiers over a character class, and capturing groups around such quantifiers.
\<close>

datatype charset = WhiteSpace | Digit | Chars string | Union charset charset

fun in_charset :: "charset \<Rightarrow> char \<Rightarrow> bool" where
  "in_charset WhiteSpace c = is_space c"
| "in_charset Digit c = is_digit c"
| "in_charset (Chars cs) c = (c \<in> set cs)"
| "in_charset (Union a b) c = (in_charset a c \<or> in_charset b c)"

datatype piece = Lit string | Many charset nat | Capture piece

text \<open>
  \<open>Many cs n\<close> is the greedy quantifier \<^verbatim>\<open>{n,}\<close> over the class \<open>cs\<close>: \<^verbatim>\<open>*\<close> is \<open>Many cs 0\<close>
  and \<^verbatim>\<open>+\<close> is \<open>Many cs 1\<close>.

  \<open>alternatives p s\<close> lists the lengths of the prefixes of \<open>s\<close> that \<open>p\<close> can consume, in the order
  in which a backtracking matcher tries them: a greedy quantifier takes the longest run first
  and gives characters back one at a time.
\<close>

fun alternatives :: "piece \<Rightarrow> string \<Rightarrow> nat list" where
  "alternatives (Lit l) s = (if take (length l) s = l then [length l] else [])"
| "alternatives (Many cs n) s = rev [n ..< Suc (length (takeWhile (in_charset cs) s))]"
| "alternatives (Capture p) s = alternatives p s"

fun captures :: "piece \<Rightarrow> string \<Rightarrow> string list" where
  "captures (Capture p) m = [m]"
| "captures p m = []"

fun first_some :: "('a \<Rightarrow> 'b option) \<Rightarrow> 'a list \<Rightarrow> 'b option" where
  "first_some f [] = None"
| "first_some f (x # xs) = (case f x of Some y \<Rightarrow> Some y | None \<Rightarrow> first_some f xs)"

text \<open>
  \<open>match_seq ps s\<close> matches the pieces at the start of \<open>s\<close>. It returns the length of the match
  and the captured groups, or \<open>None\<close> when every alternative has failed.
\<close>

fun match_seq :: "piece list \<Rightarrow> string \<Rightarrow> (nat \<times> string list) option" where
  "match_seq [] s = Some (0, [])"
| "match_seq (p # ps) s =
     first_some
       (\<lambda>n. case match_seq ps (drop n s) of
              None \<Rightarrow> None
            | Some (m, caps) \<Rightarrow> Some (n + m, captures p (take n s) @ caps))
       (alternatives p s)"

text \<open>
  \<^verbatim>\<open>String.prototype.match\<close> with a non-global pattern: the pattern is tried at index 0, 1, ...
  up to the length of the string, and the first success wins. The result array holds the
  matched text at index 0 and the groups from index 1.
\<close>

fun regex_match :: "piece list \<Rightarrow> string \<Rightarrow> string list option" where
  "regex_match r s =
     (case match_seq r s of
        Some (n, caps) \<Rightarrow> Some (take n s # caps)
      | None \<Rightarrow> (case s of [] \<Rightarrow> None | c # t \<Rightarrow> regex_match r t))"

declare regex_match.simps [simp del]

definition oklchRegex :: "piece list" where
  "oklchRegex =
     [Lit ''oklch('', Many WhiteSpace 0,
      Capture (Many (Union Digit (Chars ''.'')) 1), Many WhiteSpace 1,
      Capture (Many (Union Digit (Chars ''.'')) 1), Many WhiteSpace 1,
      Capture (Many (Union Digit (Chars ''.'')) 1), Many WhiteSpace 0,
      Lit '')'']"

subsection \<open>Numbers\<close>

text \<open>
  A Number is NaN, an infinity, negative zero, or a finite value; \<open>Fin 0\<close> is positive zero.
  The finite values that occur are the binary64 values: every operation rounds its exact
  rational result to the nearest one, ties to even.
\<close>

datatype number = NaN | PosInf | NegInf | NegZero | Fin rat

text \<open>\<open>bits n\<close> is the number of binary digits of \<open>n\<close>.\<close>

function bits :: "int \<Rightarrow> nat" where
  "bits n = (if n \<le> 0 then 0 else Suc (bits (n div 2)))"
  by pat_completeness auto
termination
  by (relation "measure nat") auto

declare bits.simps [simp del]

definition pow2 :: "int \<Rightarrow> rat" where
  "pow2 e = (if 0 \<le> e then of_int (2 ^ nat e) else 1 / of_int (2 ^ nat (- e)))"

definition pow10 :: "int \<Rightarrow> rat" where
  "pow10 e = (if 0 \<le> e then of_int (10 ^ nat e) else 1 / of_int (10 ^ nat (- e)))"

text \<open>\<open>ilog2 a\<close> is the exponent \<open>e\<close> with \<open>2\<^sup>e \<le> a < 2\<^sup>e\<^sup>+\<^sup>1\<close>, for \<open>a > 0\<close>.\<close>

definition ilog2 :: "rat \<Rightarrow> int" where
  "ilog2 a =
     (if 1 \<le> a then int (bits \<lfloor>a\<rfloor>) - 1
      else - int (bits (\<lceil>1 / a\<rceil> - 1)))"

definition round_half_even :: "rat \<Rightarrow> int" where
  "round_half_even x =
     (let n = \<lfloor>x\<rfloor>; r = x - of_int n
      in if r < 1 / 2 then n else if 1 / 2 < r then n + 1 else if even n then n else n + 1)"

text \<open>
  The spacing of binary64 values around \<open>a\<close> is \<open>2\<^sup>q\<close> with \<open>q = max (ilog2 a - 52) (-1074)\<close>:
  53 significant bits, and the subnormal spacing \<open>2\<^sup>-\<^sup>1\<^sup>0\<^sup>7\<^sup>4\<close> below \<open>2\<^sup>-\<^sup>1\<^sup>0\<^sup>2\<^sup>2\<close>.
\<close>

definition round_mag :: "rat \<Rightarrow> rat" where
  "round_mag a =
     (if a = 0 then 0
      else let q = max (ilog2 a - 52) (- 1074)
           in of_int (round_half_even (a / pow2 q)) * pow2 q)"

text \<open>
  \<open>round_to_double neg a\<close> is the Number for the exact value of magnitude \<open>a\<close> and sign \<open>neg\<close>:
  a rounded magnitude of \<open>2\<^sup>1\<^sup>0\<^sup>2\<^sup>4\<close> or more overflows to an infinity, and a zero keeps its sign.
\<close>

definition round_to_double :: "bool \<Rightarrow> rat \<Rightarrow> number" where
  "round_to_double neg a =
     (let v = round_mag a
      in if pow2 1024 \<le> v then (if neg then NegInf else PosInf)
         else if v = 0 then (if neg then NegZero else Fin 0)
         else Fin (if neg then - v else v))"

fun is_finite :: "number \<Rightarrow> bool" where
  "is_finite NegZero = True"
| "is_finite (Fin v) = True"
| "is_finite x = False"

fun is_zero :: "number \<Rightarrow> bool" where
  "is_zero NegZero = True"
| "is_zero (Fin v) = (v = 0)"
| "is_zero x = False"

fun negative :: "number \<Rightarrow> bool" where
  "negative NegInf = True"
| "negative NegZero = True"
| "negative (Fin v) = (v < 0)"
| "negative x = False"

fun real_value :: "number \<Rightarrow> rat" where
  "real_value (Fin v) = v"
| "real_value x = 0"

definition infinity :: "bool \<Rightarrow> number" where
  "infinity neg = (if neg then NegInf else PosInf)"

definition zero :: "bool \<Rightarrow> number" where
  "zero neg = (if neg then NegZero else Fin 0)"

text \<open>Multiplication, \<^verbatim>\<open>x * y\<close>.\<close>

definition num_mul :: "number \<Rightarrow> number \<Rightarrow> number" where
  "num_mul x y =
     (if x = NaN \<or> y = NaN then NaN
      else if \<not> is_finite x \<or> \<not> is_finite y
      then (if is_zero x \<or> is_zero y then NaN else infinity (negative x \<noteq> negative y))
      else round_to_double (negative x \<noteq> negative y) \<bar>real_value x * real_value y\<bar>)"

text \<open>Division, \<^verbatim>\<open>x / y\<close>.\<close>

definition num_div :: "number \<Rightarrow> number \<Rightarrow> number" where
  "num_div x y =
     (if x = NaN \<or> y = NaN then NaN
      else if \<not> is_finite x then (if \<not> is_finite y then NaN else infinity (negative x \<noteq> negative y))
      else if \<not> is_finite y then zero (negative x \<noteq> negative y)
      else if is_zero y then (if is_zero x then NaN else infinity (negative x \<noteq> negative y))
      else round_to_double (negative x \<noteq> negative y) \<bar>real_value x / real_value y\<bar>)"

text \<open>
  Subtraction, \<^verbatim>\<open>x - y\<close>. An exact difference of zero is \<open>+0\<close>, except for \<open>(-0) - (+0)\<close>.
\<close>

definition num_sub :: "number \<Rightarrow> number \<Rightarrow> number" where
  "num_sub x y =
     (if x = NaN \<or> y = NaN then NaN
      else if \<not> is_finite x
      then (if \<not> is_finite y \<and> negative x = negative y then NaN else x)
      else if \<not> is_finite y then infinity (\<not> negative y)
      else let d = real_value x - real_value y
           in if d = 0 then zero (x = NegZero \<and> y \<noteq> NegZero)
              else round_to_double (d < 0) \<bar>d\<bar>)"

text \<open>The comparison \<^verbatim>\<open><\<close> on Numbers: false when an operand is NaN, and \<open>-0\<close> equals \<open>+0\<close>.\<close>

fun num_less :: "number \<Rightarrow> number \<Rightarrow> bool" where
  "num_less NaN y = False"
| "num_less x NaN = False"
| "num_less PosInf y = False"
| "num_less x PosInf = True"
| "num_less x NegInf = False"
| "num_less NegInf y = True"
| "num_less x y = (real_value x < real_value y)"

text \<open>\<^verbatim>\<open>Math.min\<close> and \<^verbatim>\<open>Math.max\<close> of two arguments: NaN if either is NaN, and \<open>-0\<close> is below \<open>+0\<close>.\<close>

definition math_min :: "number \<Rightarrow> number \<Rightarrow> number" where
  "math_min a b =
     (if a = NaN \<or> b = NaN then NaN
      else if num_less a b then a
      else if num_less b a then b
      else if a = NegZero then a else b)"

definition math_max :: "number \<Rightarrow> number \<Rightarrow> number" where
  "math_max a b =
     (if a = NaN \<or> b = NaN then NaN
      else if num_less a b then b
      else if num_less b a then a
      else if a = NegZero then b else a)"

subsection \<open>Decimal text to Number: \<^verbatim>\<open>parseFloat\<close>\<close>

definition digits_value :: "string \<Rightarrow> int" where
  "digits_value ds = foldl (\<lambda>n c. 10 * n + digit_val c) 0 ds"

text \<open>
  The exponent part \<^verbatim>\<open>e\<close>, \<^verbatim>\<open>e+\<close> or \<^verbatim>\<open>e-\<close> followed by digits. Without a digit there is no
  exponent part, and the literal ends before the \<^verbatim>\<open>e\<close>.
\<close>

definition exponent_part :: "string \<Rightarrow> int" where
  "exponent_part r =
     (case r of
        [] \<Rightarrow> 0
      | c # t \<Rightarrow>
          if c = CHR ''e'' \<or> c = CHR ''E''
          then (case t of
                  [] \<Rightarrow> 0
                | d # u \<Rightarrow>
                    if d = CHR ''-'' then - digits_value (takeWhile is_digit u)
                    else if d = CHR ''+'' then digits_value (takeWhile is_digit u)
                    else digits_value (takeWhile is_digit t))
          else 0)"

text \<open>
  \<^verbatim>\<open>parseFloat\<close> on a string: leading white space is skipped, and the longest prefix that is a
  \<open>StrDecimalLiteral\<close> is converted (a sign, then \<^verbatim>\<open>Infinity\<close> or digits with an optional
  decimal point and exponent). Without such a prefix the result is NaN. The mathematical
  value of the literal is rounded to the nearest Number, as the JavaScript engines do for
  literals of any length (ECMA-262 also admits a result computed from the first twenty
  significant digits).
\<close>

definition parseFloat_string :: "string \<Rightarrow> number" where
  "parseFloat_string inputString =
     (let trimmed = dropWhile is_space inputString;
          neg = (take 1 trimmed = ''-'');
          t = (if take 1 trimmed = ''-'' \<or> take 1 trimmed = ''+'' then drop 1 trimmed else trimmed)
      in if take 8 t = ''Infinity'' then infinity neg
         else
           let ip = takeWhile is_digit t;
               r1 = dropWhile is_digit t;
               fp = (if take 1 r1 = ''.'' then takeWhile is_digit (drop 1 r1) else []);
               r2 = (if take 1 r1 = ''.'' then dropWhile is_digit (drop 1 r1) else r1)
           in if ip = [] \<and> fp = [] then NaN
              else round_to_double neg
                     (of_int (digits_value (ip @ fp)) * pow10 (exponent_part r2 - int (length fp))))"

subsection \<open>Number to text: \<^verbatim>\<open>Number::toString\<close> and \<^verbatim>\<open>toFixed\<close>\<close>

function digits10 :: "int \<Rightarrow> string" where
  "digits10 n = (if n < 10 then [digit_char n] else digits10 (n div 10) @ [digit_char (n mod 10)])"
  by pat_completeness auto
termination
  by (relation "measure nat") auto

declare digits10.simps [simp del]

text \<open>\<open>ilog10 a\<close> is the exponent \<open>e\<close> with \<open>10\<^sup>e \<le> a < 10\<^sup>e\<^sup>+\<^sup>1\<close>, for \<open>a > 0\<close>.\<close>

function count_digits :: "int \<Rightarrow> nat" where
  "count_digits n = (if n \<le> 0 then 0 else Suc (count_digits (n div 10)))"
  by pat_completeness auto
termination
  by (relation "measure nat") auto

declare count_digits.simps [simp del]

definition ilog10 :: "rat \<Rightarrow> int" where
  "ilog10 a =
     (if 1 \<le> a then int (count_digits \<lfloor>a\<rfloor>) - 1
      else - int (count_digits (\<lceil>1 / a\<rceil> - 1)))"

text \<open>
  \<open>digits_for a n k\<close> looks for \<open>k\<close> decimal digits \<open>s\<close> such that \<open>s \<times> 10\<^sup>n\<^sup>-\<^sup>k\<close> rounds to the
  Number \<open>a\<close>. Only the two multiples of \<open>10\<^sup>n\<^sup>-\<^sup>k\<close> around \<open>a\<close> can do so; when both do, the one
  closest to \<open>a\<close> is taken, and the even one when they are equally close. A candidate \<open>10\<^sup>k\<close> is
  the digit 1 with \<open>n + 1\<close>.
\<close>

definition digits_for :: "rat \<Rightarrow> int \<Rightarrow> nat \<Rightarrow> (int \<times> int) option" where
  "digits_for a n k =
     (let u = pow10 (n - int k);
          lo = \<lfloor>a / u\<rfloor>;
          hi = lo + 1;
          ok = (\<lambda>s. round_to_double False (of_int s * u) = Fin a);
          below = a - of_int lo * u;
          above = of_int hi * u - a;
          s = (if ok lo \<and> ok hi
               then (if below < above then Some lo
                     else if above < below then Some hi
                     else if even lo then Some lo else Some hi)
               else if ok lo then Some lo
               else if ok hi then Some hi
               else None)
      in case s of
           None \<Rightarrow> None
         | Some d \<Rightarrow> if d = 10 ^ k then Some (10 ^ (k - 1), n + 1) else Some (d, n))"

text \<open>
  \<^verbatim>\<open>Number::toString\<close> in radix 10: the shortest digit string \<open>s\<close> of \<open>k\<close> digits with
  \<open>s \<times> 10\<^sup>n\<^sup>-\<^sup>k\<close> rounding to the Number, laid out in one of the five formats of ECMA-262.
  Seventeen digits always suffice for a binary64 value, so the search finds digits for every
  Number.
\<close>

definition shortest_digits :: "rat \<Rightarrow> int \<times> int" where
  "shortest_digits a =
     (case first_some (digits_for a (ilog10 a + 1)) [1 ..< 18] of
        Some r \<Rightarrow> r
      | None \<Rightarrow> (0, 0))"

definition toString_pos :: "rat \<Rightarrow> string" where
  "toString_pos a =
     (let (s, n) = shortest_digits a;
          ds = digits10 s;
          k = int (length ds)
      in if k \<le> n \<and> n \<le> 21 then ds @ replicate (nat (n - k)) CHR ''0''
         else if 0 < n \<and> n \<le> 21 then take (nat n) ds @ ''.'' @ drop (nat n) ds
         else if - 6 < n \<and> n \<le> 0 then ''0.'' @ replicate (nat (- n)) CHR ''0'' @ ds
         else
           let e = (if 0 \<le> n - 1 then ''+'' else ''-'') @ digits10 \<bar>n - 1\<bar>
           in if k = 1 then ds @ ''e'' @ e
              else take 1 ds @ ''.'' @ drop 1 ds @ ''e'' @ e)"

fun toString :: "number \<Rightarrow> string" where
  "toString NaN = ''NaN''"
| "toString PosInf = ''Infinity''"
| "toString NegInf = ''-Infinity''"
| "toString NegZero = ''0''"
| "toString (Fin v) =
     (if v = 0 then ''0'' else if v < 0 then ''-'' @ toString_pos (- v) else toString_pos v)"

text \<open>
  The exceptions: the RangeError of \<^verbatim>\<open>toFixed\<close>, the TypeError of a conversion to a string, and
  \<open>Thrown s\<close> for a value that a conversion method of an object throws (\<open>s\<close> names it).
\<close>

datatype js_error = RangeError | TypeError | Thrown string

text \<open>
  \<open>fixed_digits a f\<close> is step 11 of \<^verbatim>\<open>Number.prototype.toFixed\<close> for \<open>0 \<le> a < 10\<^sup>2\<^sup>1\<close>: the integer
  \<open>n\<close> with \<open>n / 10\<^sup>f\<close> closest to \<open>a\<close> (the larger one on a tie), its digits padded with zeros to
  \<open>f + 1\<close> places, and the decimal point before the last \<open>f\<close> digits.
\<close>

definition fixed_digits :: "rat \<Rightarrow> nat \<Rightarrow> string" where
  "fixed_digits a f =
     (let n = \<lfloor>a * pow10 (int f) + 1 / 2\<rfloor>;
          m = digits10 n;
          m = (if f \<noteq> 0 \<and> length m \<le> f then replicate (f + 1 - length m) CHR ''0'' @ m else m)
      in if f \<noteq> 0 then take (length m - f) m @ ''.'' @ drop (length m - f) m else m)"

text \<open>
  \<^verbatim>\<open>Number.prototype.toFixed\<close>: a RangeError outside 0 to 100 fraction digits; NaN, the
  infinities and magnitudes of \<open>10\<^sup>2\<^sup>1\<close> or more are printed by \<^verbatim>\<open>Number::toString\<close>; every other
  Number is printed in fixed-point notation, with a minus sign when it is below zero.
\<close>

definition toFixed_digits :: "number \<Rightarrow> nat \<Rightarrow> string" where
  "toFixed_digits x f =
     (if \<not> is_finite x then toString x
      else
        let v = real_value x;
            s = (if v < 0 then ''-'' else []);
            a = \<bar>v\<bar>
        in if pow10 21 \<le> a then s @ toString (Fin a) else s @ fixed_digits a f)"

definition toFixed :: "number \<Rightarrow> int \<Rightarrow> js_error + string" where
  "toFixed x fractionDigits =
     (if fractionDigits < 0 \<or> 100 < fractionDigits then Inl RangeError
      else Inr (toFixed_digits x (nat fractionDigits)))"

subsection \<open>The function\<close>

text \<open>
  The percentage is any JavaScript value: the function does not test its type. An object is
  given by what its conversion to a string does (\<open>ToPrimitive\<close> with the hint string, then
  \<open>ToString\<close>): \<open>Inr s\<close> when it yields the string \<open>s\<close>, \<open>Inl e\<close> when it throws \<open>e\<close>, a TypeError
  when neither \<^verbatim>\<open>toString\<close> nor \<^verbatim>\<open>valueOf\<close> returns a primitive value or the primitive is a Symbol,
  and otherwise what these methods throw.
\<close>

datatype jsval =
    JUndefined
  | JNull
  | JBoolean bool
  | JNumber number
  | JString string
  | JSymbol
  | JBigInt int
  | JObject "js_error + string"

text \<open>The abstract operation \<open>ToString\<close> of ECMA-262. It throws a TypeError for a Symbol.\<close>

fun ToString :: "jsval \<Rightarrow> js_error + string" where
  "ToString JUndefined = Inr ''undefined''"
| "ToString JNull = Inr ''null''"
| "ToString (JBoolean b) = Inr (if b then ''true'' else ''false'')"
| "ToString (JNumber x) = Inr (toString x)"
| "ToString (JString s) = Inr s"
| "ToString JSymbol = Inl TypeError"
| "ToString (JBigInt n) = Inr (if n < 0 then ''-'' @ digits10 (- n) else digits10 n)"
| "ToString (JObject r) = r"

text \<open>
  \<^verbatim>\<open>parseFloat\<close> converts its argument to a string first, so a Number goes through
  \<^verbatim>\<open>Number::toString\<close>, and the call throws when the conversion does.
\<close>

definition parseFloat :: "jsval \<Rightarrow> js_error + number" where
  "parseFloat v = (case ToString v of Inl e \<Rightarrow> Inl e | Inr inputString \<Rightarrow> Inr (parseFloat_string inputString))"

text \<open>
  \<open>getPropertyValue\<close> stands for \<^verbatim>\<open>getComputedStyle(document.documentElement).getPropertyValue\<close>:
  it returns a string for every name, the empty string for a property that is not set. The
  function returns what the JavaScript returns (\<open>None\<close> is \<^verbatim>\<open>null\<close>) or the error it throws,
  together with the lines written by \<^verbatim>\<open>console.error\<close>. The percentage is converted on line 43,
  after the test of the match on line 28.
\<close>

definition adjustOklchLightness ::
  "(string \<Rightarrow> string) \<Rightarrow> string \<Rightarrow> jsval \<Rightarrow> (js_error + string option) \<times> string list" where
  "adjustOklchLightness getPropertyValue cssVariableName percentageModification =
     (let oklchValue = trim (getPropertyValue cssVariableName)
      in case regex_match oklchRegex oklchValue of
           None \<Rightarrow>
             (Inr None,
              [''Invalid OKLCH format or CSS variable '' @ [CHR 0x22] @ cssVariableName @ [CHR 0x22] @
               '' not found.''])
         | Some match \<Rightarrow>
             let lightness = parseFloat_string (match ! 1);
                 chroma = parseFloat_string (match ! 2);
                 hue = parseFloat_string (match ! 3)
             in (case parseFloat percentageModification of
                   Inl e \<Rightarrow> (Inl e, [])
                 | Inr percentage \<Rightarrow>
                     let numericPercentage = num_div percentage (Fin 100);
                         lightness = num_sub lightness (num_mul lightness numericPercentage);
                         lightness = math_max (Fin 0) (math_min (Fin 1) lightness)
                     in (case toFixed lightness 4 of
                           Inl e \<Rightarrow> (Inl e, [])
                         | Inr l \<Rightarrow>
                             (case toFixed chroma 4 of
                                Inl e \<Rightarrow> (Inl e, [])
                              | Inr c \<Rightarrow>
                                  (case toFixed hue 4 of
                                     Inl e \<Rightarrow> (Inl e, [])
                                   | Inr h \<Rightarrow>
                                       (Inr (Some (''oklch('' @ l @ '' '' @ c @ '' '' @ h @ '')'')),
                                        []))))))"

subsection \<open>What the pattern accepts\<close>

text \<open>
  The strings a piece and a sequence of pieces can match, stated without reference to the
  matcher: \<open>seq_matches ps m caps\<close> holds when \<open>m\<close> splits into one substring per piece and
  \<open>caps\<close> are the substrings of the capturing groups.
\<close>

fun piece_matches :: "piece \<Rightarrow> string \<Rightarrow> bool" where
  "piece_matches (Lit l) u = (u = l)"
| "piece_matches (Many cs n) u = (n \<le> length u \<and> (\<forall>c \<in> set u. in_charset cs c))"
| "piece_matches (Capture p) u = piece_matches p u"

fun seq_matches :: "piece list \<Rightarrow> string \<Rightarrow> string list \<Rightarrow> bool" where
  "seq_matches [] m caps = (m = [] \<and> caps = [])"
| "seq_matches (p # ps) m caps =
     (\<exists>u r cs. m = u @ r \<and> piece_matches p u \<and> seq_matches ps r cs \<and> caps = captures p u @ cs)"

text \<open>
  For \<^verbatim>\<open>oklchRegex\<close> this is the form \<^verbatim>\<open>oklch(\<close> \<open>a\<close> \<open>b\<close> \<open>c\<close> \<^verbatim>\<open>)\<close>: optional white space after the
  opening parenthesis and before the closing one, white space between the components, and each
  component a non-empty run of digits and decimal points (the class \<^verbatim>\<open>[\d.]+\<close>, which contains the
  decimal numbers with digits and an optional point).
\<close>

definition is_decimal :: "string \<Rightarrow> bool" where
  "is_decimal a \<longleftrightarrow> a \<noteq> [] \<and> (\<forall>x \<in> set a. is_digit x \<or> x = CHR ''.'')"

definition oklch_form :: "string \<Rightarrow> string \<Rightarrow> string \<Rightarrow> string \<Rightarrow> bool" where
  "oklch_form t a b c \<longleftrightarrow>
     (\<exists>w1 w2 w3 w4.
        t = ''oklch('' @ w1 @ a @ w2 @ b @ w3 @ c @ w4 @ '')'' \<and>
        (\<forall>x \<in> set (w1 @ w2 @ w3 @ w4). is_space x) \<and> w2 \<noteq> [] \<and> w3 \<noteq> [] \<and>
        is_decimal a \<and> is_decimal b \<and> is_decimal c)"

text \<open>
  Lines 43 to 56 of the function as one expression: the lightness that is printed, from the
  parsed lightness and the Number the percentage argument is converted to.
\<close>

definition clamped_lightness :: "number \<Rightarrow> number \<Rightarrow> number" where
  "clamped_lightness lightness percentage =
     math_max (Fin 0)
       (math_min (Fin 1)
          (num_sub lightness (num_mul lightness (num_div percentage (Fin 100)))))"


subsection \<open>The binary64 values\<close>

text \<open>
  A rational is a binary64 value when it is \<open>m \<times> 2\<^sup>e\<close> with a significand below \<open>2\<^sup>5\<^sup>3\<close> and an
  exponent from \<open>-1074\<close> to \<open>971\<close>. \<open>is_double\<close> is the invariant of the type \<open>number\<close>: the
  finite values that the operations produce are binary64 values.
\<close>

definition representable :: "rat \<Rightarrow> bool" where
  "representable v \<longleftrightarrow>
     (\<exists>m e. v = of_int m * pow2 e \<and> \<bar>m\<bar> < 2 ^ 53 \<and> - 1074 \<le> e \<and> e \<le> 971)"

fun is_double :: "number \<Rightarrow> bool" where
  "is_double (Fin v) = representable v"
| "is_double x = True"

text \<open>The comparison \<^verbatim>\<open><=\<close> on Numbers: false when an operand is NaN.\<close>

definition num_le :: "number \<Rightarrow> number \<Rightarrow> bool" where
  "num_le x y = (x \<noteq> NaN \<and> y \<noteq> NaN \<and> \<not> num_less y x)"

subsection \<open>The shape of the output\<close>

text \<open>
  \<open>is_fixed4 s\<close> holds when \<open>s\<close> is one or more digits, a decimal point, and exactly four digits;
  \<open>fixed_value s\<close> is the number such a string denotes. \<open>output_shape s\<close> holds when \<open>s\<close> is
  \<^verbatim>\<open>oklch(\<close>, three such numbers separated by single spaces, and \<^verbatim>\<open>)\<close>.
\<close>

definition is_fixed4 :: "string \<Rightarrow> bool" where
  "is_fixed4 s =
     (let ip = takeWhile is_digit s; r = dropWhile is_digit s
      in ip \<noteq> [] \<and> take 1 r = ''.'' \<and> length (drop 1 r) = 4 \<and> list_all is_digit (drop 1 r))"

definition fixed_value :: "string \<Rightarrow> rat" where
  "fixed_value s =
     (let ip = takeWhile is_digit s; fp = drop 1 (dropWhile is_digit s)
      in of_int (digits_value (ip @ fp)) / 10 ^ length fp)"

fun split_on :: "char \<Rightarrow> string \<Rightarrow> string list" where
  "split_on d [] = [[]]"
| "split_on d (x # xs) =
     (if x = d then [] # split_on d xs
      else (case split_on d xs of [] \<Rightarrow> [[x]] | w # ws \<Rightarrow> (x # w) # ws))"

definition output_shape :: "string \<Rightarrow> bool" where
  "output_shape s =
     (take 6 s = ''oklch('' \<and> drop (length s - 1) s = '')'' \<and>
      (let ws = split_on CHR '' '' (take (length s - 7) (drop 6 s))
       in length ws = 3 \<and> list_all is_fixed4 ws))"

section \<open>Properties of the matcher\<close>

lemma first_some_SomeD:
  "first_some f xs = Some y \<Longrightarrow> \<exists>x \<in> set xs. f x = Some y"
  by (induction xs) (auto split: option.splits)

lemma first_some_None_iff:
  "first_some f xs = None \<longleftrightarrow> (\<forall>x \<in> set xs. f x = None)"
  by (induction xs) (auto split: option.splits)

lemma alternatives_sound:
  "n \<in> set (alternatives p s) \<Longrightarrow> n \<le> length s \<and> piece_matches p (take n s)"
proof (induction p)
  case (Lit l)
  then show ?case
    by (auto split: if_splits simp: min_def) (metis length_take min.cobounded1)
next
  case (Many cs k)
  let ?t = "takeWhile (in_charset cs) s"
  from Many have n: "k \<le> n" "n \<le> length ?t" by auto
  have "length ?t \<le> length s" by (rule length_takeWhile_le)
  moreover have "take n s = take n ?t"
    using n(2) by (metis takeWhile_dropWhile_id take_append diff_is_0_eq' take0 append_Nil2)
  moreover have "\<forall>c \<in> set (take n ?t). in_charset cs c"
    by (meson in_set_takeD set_takeWhileD)
  ultimately show ?case using n by auto
next
  case (Capture p)
  then show ?case by simp
qed

lemma alternatives_complete:
  "piece_matches p u \<Longrightarrow> length u \<in> set (alternatives p (u @ r))"
proof (induction p)
  case (Lit l)
  then show ?case by simp
next
  case (Many cs k)
  then have "takeWhile (in_charset cs) (u @ r) = u @ takeWhile (in_charset cs) r"
    by simp
  with Many show ?case by auto
next
  case (Capture p)
  then show ?case by simp
qed

lemma match_seq_sound:
  "match_seq ps s = Some (n, caps) \<Longrightarrow> n \<le> length s \<and> seq_matches ps (take n s) caps"
proof (induction ps arbitrary: s n caps)
  case Nil
  then show ?case by simp
next
  case (Cons p ps)
  from Cons.prems obtain k where k: "k \<in> set (alternatives p s)"
    and r: "(case match_seq ps (drop k s) of None \<Rightarrow> None
              | Some (m, cs) \<Rightarrow> Some (k + m, captures p (take k s) @ cs)) = Some (n, caps)"
    by (auto dest!: first_some_SomeD)
  from r obtain m cs where m: "match_seq ps (drop k s) = Some (m, cs)"
    and n: "n = k + m" and caps: "caps = captures p (take k s) @ cs"
    by (auto split: option.splits)
  from Cons.IH[OF m] have ih: "m \<le> length (drop k s)" "seq_matches ps (take m (drop k s)) cs"
    by auto
  from alternatives_sound[OF k] have a: "k \<le> length s" "piece_matches p (take k s)" by auto
  have "take n s = take k s @ take m (drop k s)"
    unfolding n by (simp add: take_add)
  with a ih n caps show ?case by auto
qed

lemma match_seq_complete:
  "seq_matches ps m caps \<Longrightarrow> match_seq ps (m @ r) \<noteq> None"
proof (induction ps arbitrary: m caps r)
  case Nil
  then show ?case by simp
next
  case (Cons p ps)
  then obtain u t cs where m: "m = u @ t" and p: "piece_matches p u"
    and t: "seq_matches ps t cs" by auto
  from alternatives_complete[OF p] have "length u \<in> set (alternatives p (m @ r))"
    unfolding m by simp
  moreover from Cons.IH[OF t] have "match_seq ps (drop (length u) (m @ r)) \<noteq> None"
    unfolding m by simp
  ultimately show ?case
    by (auto simp: first_some_None_iff split: option.splits)
qed

lemma regex_match_SomeD:
  "regex_match r s = Some arr \<Longrightarrow>
     \<exists>pre m post caps. s = pre @ m @ post \<and> seq_matches r m caps \<and> arr = m # caps"
proof (induction s)
  case Nil
  then obtain n caps where "match_seq r [] = Some (n, caps)" "arr = take n [] # caps"
    by (auto simp: regex_match.simps[of r "[]"] split: option.splits)
  with match_seq_sound[of r "[]" n caps] show ?case by auto
next
  case (Cons c t)
  show ?case
  proof (cases "match_seq r (c # t)")
    case None
    with Cons.prems have "regex_match r t = Some arr"
      by (simp add: regex_match.simps[of r "c # t"])
    from Cons.IH[OF this] obtain pre m post caps where
      "t = pre @ m @ post" "seq_matches r m caps" "arr = m # caps" by blast
    then have "c # t = (c # pre) @ m @ post" by simp
    then show ?thesis using \<open>seq_matches r m caps\<close> \<open>arr = m # caps\<close> by blast
  next
    case (Some a)
    obtain n caps where a: "a = (n, caps)" by (cases a)
    with Some Cons.prems have arr: "arr = take n (c # t) # caps"
      by (simp add: regex_match.simps[of r "c # t"])
    from match_seq_sound[of r "c # t" n caps] Some a
    have "seq_matches r (take n (c # t)) caps" by simp
    moreover have "c # t = [] @ take n (c # t) @ drop n (c # t)" by simp
    ultimately show ?thesis using arr by blast
  qed
qed

lemma regex_match_complete:
  "seq_matches r m caps \<Longrightarrow> regex_match r (pre @ m @ post) \<noteq> None"
proof (induction pre)
  case Nil
  from match_seq_complete[OF Nil, of post] show ?case
    by (auto simp: regex_match.simps[of r "m @ post"] split: option.splits)
next
  case (Cons c pre)
  then show ?case
    by (auto simp: regex_match.simps[of r "c # pre @ m @ post"] split: option.splits)
qed

lemma space_not_decimal: "is_space x \<Longrightarrow> \<not> (is_digit x \<or> x = CHR ''.'')"
  by (auto simp: is_space_def is_digit_def)











lemma seq_matches_ConsI:
  "piece_matches p u \<Longrightarrow> seq_matches ps r cs \<Longrightarrow>
     seq_matches (p # ps) (u @ r) (captures p u @ cs)"
  by auto

lemma seq_matches_oklch:
  "seq_matches oklchRegex m caps \<longleftrightarrow> (\<exists>a b c. caps = [a, b, c] \<and> oklch_form m a b c)"
proof
  assume "seq_matches oklchRegex m caps"
  then obtain w1 a w2 b w3 c w4 where
    "m = ''oklch('' @ w1 @ a @ w2 @ b @ w3 @ c @ w4 @ '')''" "caps = [a, b, c]"
    "\<forall>x \<in> set w1. is_space x" "\<forall>x \<in> set w2. is_space x"
    "\<forall>x \<in> set w3. is_space x" "\<forall>x \<in> set w4. is_space x"
    "w2 \<noteq> []" "w3 \<noteq> []" "is_decimal a" "is_decimal b" "is_decimal c"
    unfolding oklchRegex_def is_decimal_def by (auto simp: Suc_le_eq)
  then show "\<exists>a b c. caps = [a, b, c] \<and> oklch_form m a b c"
    unfolding oklch_form_def
    apply (rule_tac x = a in exI, rule_tac x = b in exI, rule_tac x = c in exI)
    apply (rule conjI, assumption)
    apply (rule_tac x = w1 in exI, rule_tac x = w2 in exI)
    apply (rule_tac x = w3 in exI, rule_tac x = w4 in exI)
    apply auto
    done
next
  assume "\<exists>a b c. caps = [a, b, c] \<and> oklch_form m a b c"
  then obtain w1 a w2 b w3 c w4 where
    "m = ''oklch('' @ w1 @ a @ w2 @ b @ w3 @ c @ w4 @ '')''" "caps = [a, b, c]"
    "\<forall>x \<in> set w1. is_space x" "\<forall>x \<in> set w2. is_space x"
    "\<forall>x \<in> set w3. is_space x" "\<forall>x \<in> set w4. is_space x"
    "w2 \<noteq> []" "w3 \<noteq> []" "is_decimal a" "is_decimal b" "is_decimal c"
    unfolding oklch_form_def by auto
  note f = this
  let ?num = "Union Digit (Chars ''.'')"
  have pa: "piece_matches (Capture (Many ?num 1)) a" "piece_matches (Capture (Many ?num 1)) b"
    "piece_matches (Capture (Many ?num 1)) c"
    using f(9-11) by (auto simp: is_decimal_def Suc_le_eq)
  have pw: "piece_matches (Many WhiteSpace 0) w1" "piece_matches (Many WhiteSpace 1) w2"
    "piece_matches (Many WhiteSpace 1) w3" "piece_matches (Many WhiteSpace 0) w4"
    using f(3-8) by (auto simp: Suc_le_eq)
  have s9: "seq_matches [Lit '')''] ('')'' @ []) (captures (Lit '')'') '')'' @ [])"
    by (rule seq_matches_ConsI) simp_all
  note s8 = seq_matches_ConsI[OF pw(4) s9]
  note s7 = seq_matches_ConsI[OF pa(3) s8]
  note s6 = seq_matches_ConsI[OF pw(3) s7]
  note s5 = seq_matches_ConsI[OF pa(2) s6]
  note s4 = seq_matches_ConsI[OF pw(2) s5]
  note s3 = seq_matches_ConsI[OF pa(1) s4]
  note s2 = seq_matches_ConsI[OF pw(1) s3]
  have "seq_matches oklchRegex (''oklch('' @ w1 @ a @ w2 @ b @ w3 @ c @ w4 @ '')'' @ [])
          (captures (Lit ''oklch('') ''oklch('' @ captures (Many WhiteSpace 0) w1 @
           captures (Capture (Many ?num 1)) a @ captures (Many WhiteSpace 1) w2 @
           captures (Capture (Many ?num 1)) b @ captures (Many WhiteSpace 1) w3 @
           captures (Capture (Many ?num 1)) c @ captures (Many WhiteSpace 0) w4 @
           captures (Lit '')'') '')'' @ [])"
    unfolding oklchRegex_def by (rule seq_matches_ConsI[OF _ s2]) simp
  then show "seq_matches oklchRegex m caps"
    using f(1,2) by simp
qed

lemma dropWhile_keep:
  "m \<noteq> [] \<Longrightarrow> \<not> P (hd m) \<Longrightarrow> \<exists>pre'. dropWhile P (pre @ m @ post) = pre' @ m @ post"
proof (induction pre)
  case Nil
  then have "dropWhile P (m @ post) = m @ post" by (cases m) auto
  then show ?case by (intro exI[of _ "[]"]) simp
next
  case (Cons x pre)
  then obtain pre' where "dropWhile P (pre @ m @ post) = pre' @ m @ post" by blast
  then show ?case
    by (cases "P x") (auto intro: exI[of _ "x # pre"])
qed

lemma trim_keeps:
  assumes "m \<noteq> []" "\<not> is_space (hd m)" "\<not> is_space (last m)"
  shows "\<exists>pre' post'. trim (pre @ m @ post) = pre' @ m @ post'"
proof -
  from dropWhile_keep[where P = is_space and pre = pre and post = post, OF assms(1,2)]
  obtain pre' where
    1: "dropWhile is_space (pre @ m @ post) = pre' @ m @ post" by blast
  have "rev m \<noteq> []" "\<not> is_space (hd (rev m))"
    using assms by (auto simp: hd_rev)
  from dropWhile_keep[where P = is_space and pre = "rev post" and post = "rev pre'", OF this]
  obtain post' where
    2: "dropWhile is_space (rev post @ rev m @ rev pre') = post' @ rev m @ rev pre'" by blast
  have "trim (pre @ m @ post) = pre' @ m @ rev post'"
    unfolding trim_def 1 by (simp add: 2)
  then show ?thesis by blast
qed

lemma oklch_form_ends:
  assumes "oklch_form m a b c"
  shows "m \<noteq> []" "\<not> is_space (hd m)" "\<not> is_space (last m)" "take 6 m = ''oklch(''"
proof -
  from assms obtain w1 w2 w3 w4 where
    m: "m = ''oklch('' @ w1 @ a @ w2 @ b @ w3 @ c @ w4 @ '')''"
    unfolding oklch_form_def by blast
  show "m \<noteq> []" "take 6 m = ''oklch(''" unfolding m by simp_all
  have "hd m = CHR ''o''" unfolding m by simp
  then show "\<not> is_space (hd m)" by (simp add: is_space_def)
  have "m = (''oklch('' @ w1 @ a @ w2 @ b @ w3 @ c @ w4) @ [CHR '')'']" unfolding m by simp
  then have "last m = CHR '')''" by (simp only: last_snoc)
  then show "\<not> is_space (last m)" by (simp add: is_space_def)
qed

lemma oklch_formI:
  assumes "\<forall>x \<in> set (w1 @ w2 @ w3 @ w4). is_space x" "w2 \<noteq> []" "w3 \<noteq> []"
    "is_decimal a" "is_decimal b" "is_decimal c"
  shows "oklch_form (''oklch('' @ w1 @ a @ w2 @ b @ w3 @ c @ w4 @ '')'') a b c"
  unfolding oklch_form_def using assms by blast

lemma regex_match_oklch_SomeD:
  assumes "regex_match oklchRegex s = Some arr"
  shows "\<exists>pre m post a b c. s = pre @ m @ post \<and> arr = [m, a, b, c] \<and> oklch_form m a b c"
proof -
  from regex_match_SomeD[OF assms] obtain pre m post caps where
    "s = pre @ m @ post" "seq_matches oklchRegex m caps" "arr = m # caps" by blast
  then show ?thesis by (auto simp: seq_matches_oklch)
qed

lemma regex_match_oklch_None_iff:
  "regex_match oklchRegex s = None \<longleftrightarrow>
     \<not> (\<exists>pre m post a b c. s = pre @ m @ post \<and> oklch_form m a b c)"
proof
  assume "regex_match oklchRegex s = None"
  show "\<not> (\<exists>pre m post a b c. s = pre @ m @ post \<and> oklch_form m a b c)"
  proof
    assume "\<exists>pre m post a b c. s = pre @ m @ post \<and> oklch_form m a b c"
    then obtain pre m post a b c where s: "s = pre @ m @ post" and "oklch_form m a b c" by blast
    then have "seq_matches oklchRegex m [a, b, c]" by (simp add: seq_matches_oklch)
    from regex_match_complete[OF this, of pre post] \<open>regex_match oklchRegex s = None\<close> s
    show False by simp
  qed
next
  assume n: "\<not> (\<exists>pre m post a b c. s = pre @ m @ post \<and> oklch_form m a b c)"
  show "regex_match oklchRegex s = None"
  proof (cases "regex_match oklchRegex s")
    case (Some arr)
    from regex_match_oklch_SomeD[OF this] n show ?thesis by blast
  qed simp
qed

lemma toFixed_4: "toFixed x 4 = Inr (toFixed_digits x 4)"
  by (simp add: toFixed_def)

lemma adjust_no_match:
  "regex_match oklchRegex (trim (g n)) = None \<Longrightarrow> fst (adjustOklchLightness g n p) = Inr None"
  by (simp add: adjustOklchLightness_def)

lemma adjust_match:
  "regex_match oklchRegex (trim (g n)) = Some [m, a, b, c] \<Longrightarrow> parseFloat p = Inr pct \<Longrightarrow>
   adjustOklchLightness g n p =
     (Inr (Some (''oklch('' @
        toFixed_digits (clamped_lightness (parseFloat_string a) pct) 4 @ '' '' @
        toFixed_digits (parseFloat_string b) 4 @ '' '' @
        toFixed_digits (parseFloat_string c) 4 @ '')'')), [])"
  by (simp add: adjustOklchLightness_def Let_def toFixed_4 clamped_lightness_def)

lemma adjust_throws:
  "regex_match oklchRegex (trim (g n)) = Some arr \<Longrightarrow> parseFloat p = Inl e \<Longrightarrow>
   adjustOklchLightness g n p = (Inl e, [])"
  by (simp add: adjustOklchLightness_def Let_def)

lemma parseFloat_Inl: "parseFloat p = Inl e \<longleftrightarrow> ToString p = Inl e"
  by (simp add: parseFloat_def split: sum.splits)

lemma parseFloat_Inr: "parseFloat p = Inr x \<longleftrightarrow> (\<exists>s. ToString p = Inr s \<and> x = parseFloat_string s)"
  by (auto simp: parseFloat_def split: sum.splits)

lemma parseFloat_JNumber: "parseFloat (JNumber x) = Inr (parseFloat_string (toString x))"
  by (simp add: parseFloat_def)

lemma parseFloat_JString: "parseFloat (JString s) = Inr (parseFloat_string s)"
  by (simp add: parseFloat_def)

lemma clamped_lightness_NaN: "clamped_lightness l NaN = NaN"
  by (simp add: clamped_lightness_def num_div_def num_mul_def num_sub_def math_min_def math_max_def)

lemma toFixed_digits_NaN: "toFixed_digits NaN f = ''NaN''"
  by (simp add: toFixed_digits_def)

section \<open>Properties of rounding\<close>

lemma pow2_powi: "pow2 e = 2 powi e"
  by (simp add: pow2_def power_int_def power_one_over)

lemma pow10_powi: "pow10 e = 10 powi e"
  by (simp add: pow10_def power_int_def power_one_over)

lemma bits_pos: "0 < n \<Longrightarrow> 0 < bits n"
  by (simp add: bits.simps[of n])

lemma bits_bounds: "0 < n \<Longrightarrow> 2 ^ (bits n - 1) \<le> n \<and> n < 2 ^ bits n"
proof (induction n rule: bits.induct)
  case (1 n)
  show ?case
  proof (cases "n = 1")
    case True
    then show ?thesis by (simp add: bits.simps[of 1] bits.simps[of 0])
  next
    case False
    with "1.prems" have h: "0 < n div 2" by simp
    with "1.IH" "1.prems" have ih: "2 ^ (bits (n div 2) - 1) \<le> n div 2" "n div 2 < 2 ^ bits (n div 2)"
      by auto
    have b: "bits n = Suc (bits (n div 2))" using "1.prems" by (simp add: bits.simps[of n])
    from bits_pos[OF h] obtain k where k: "bits (n div 2) = Suc k" by (cases "bits (n div 2)") auto
    from ih k have "2 * 2 ^ k \<le> 2 * (n div 2)" by simp
    then have lo: "2 ^ (bits n - 1) \<le> n" unfolding b k by simp
    from ih(2) have "2 * (n div 2) + 1 < 2 * 2 ^ bits (n div 2)" by simp
    then have hi: "n < 2 ^ bits n" unfolding b by simp
    from lo hi show ?thesis by simp
  qed
qed

lemma ilog2_bounds:
  assumes "0 < a"
  shows "2 powi (ilog2 a) \<le> a" "a < 2 powi (ilog2 a + 1)"
proof -
  have "2 powi (ilog2 a) \<le> a \<and> a < 2 powi (ilog2 a + 1)"
  proof (cases "1 \<le> a")
    case True
    let ?n = "\<lfloor>a\<rfloor>"
    from True have n: "0 < ?n" by simp
    from bits_pos[OF n] obtain k where k: "bits ?n = Suc k" by (cases "bits ?n") auto
    from bits_bounds[OF n] k have b: "2 ^ k \<le> ?n" "?n < 2 ^ Suc k" by auto
    have e: "ilog2 a = int k" using True k by (simp add: ilog2_def)
    have "(2::rat) ^ k = of_int (2 ^ k)" by simp
    also have "\<dots> \<le> of_int ?n" using b(1) by (simp only: of_int_le_iff)
    also have "\<dots> \<le> a" by simp
    finally have lo: "(2::rat) ^ k \<le> a" .
    from b(2) have "?n + 1 \<le> 2 ^ Suc k" by simp
    then have "(of_int (?n + 1) :: rat) \<le> of_int (2 ^ Suc k)" by (simp only: of_int_le_iff)
    moreover have "a < of_int (?n + 1)" by linarith
    ultimately have hi: "a < 2 ^ Suc k" by simp
    have "int k + 1 = int (Suc k)" by simp
    then have "(2::rat) powi (int k + 1) = 2 ^ Suc k" by (simp only: power_int_of_nat)
    with lo hi show ?thesis unfolding e by simp
  next
    case False
    let ?N = "\<lceil>1 / a\<rceil>"
    from False assms have "1 < 1 / a" by simp
    then have N: "0 < ?N - 1" by linarith
    from bits_pos[OF N] obtain k where k: "bits (?N - 1) = Suc k" by (cases "bits (?N - 1)") auto
    from bits_bounds[OF N] k have b: "2 ^ k \<le> ?N - 1" "?N - 1 < 2 ^ Suc k" by auto
    have e: "ilog2 a = - int (Suc k)" using False k by (simp add: ilog2_def)
    from b(2) have "?N \<le> 2 ^ Suc k" by simp
    then have "(of_int ?N :: rat) \<le> of_int (2 ^ Suc k)" by (simp only: of_int_le_iff)
    moreover have "1 / a \<le> of_int ?N" by (rule le_of_int_ceiling)
    moreover have "(of_int (2 ^ Suc k) :: rat) = 2 ^ Suc k" by simp
    ultimately have "1 / a \<le> 2 ^ Suc k" by linarith
    with assms have lo: "1 / 2 ^ Suc k \<le> a"
      by (simp add: field_simps)
    have "(of_int (2 ^ k) :: rat) \<le> of_int (?N - 1)" using b(1) by (simp only: of_int_le_iff)
    moreover have "of_int (?N - 1) < 1 / a" by linarith
    moreover have "(of_int (2 ^ k) :: rat) = 2 ^ k" by simp
    ultimately have "2 ^ k < 1 / a" by linarith
    with assms have hi: "a < 1 / 2 ^ k" by (simp add: field_simps)
    have p1: "(2::rat) powi (- int (Suc k)) = 1 / 2 ^ Suc k"
      by (simp only: power_int_minus_divide power_int_of_nat)
    have "- int (Suc k) + 1 = - int k" by simp
    then have p2: "(2::rat) powi (- int (Suc k) + 1) = 1 / 2 ^ k"
      by (simp only: power_int_minus_divide power_int_of_nat)
    from lo hi show ?thesis unfolding e p1 p2 by simp
  qed
  then show "2 powi (ilog2 a) \<le> a" "a < 2 powi (ilog2 a + 1)" by auto
qed

lemma powi_less_cancel: "(2::rat) powi a < 2 powi b \<Longrightarrow> a < b"
  by (rule ccontr) (use power_int_increasing[of b a "2::rat"] in auto)

lemma ilog2_mono: "0 < a \<Longrightarrow> a \<le> b \<Longrightarrow> ilog2 a \<le> ilog2 b"
proof -
  assume a: "0 < a" "a \<le> b"
  then have b: "0 < b" by simp
  from ilog2_bounds[OF a(1)] ilog2_bounds[OF b] a(2)
  have "(2::rat) powi (ilog2 a) < 2 powi (ilog2 b + 1)" by linarith
  then have "ilog2 a < ilog2 b + 1" by (rule powi_less_cancel)
  then show ?thesis by simp
qed

lemma round_half_even_of_int: "round_half_even (of_int n) = n"
  by (simp add: round_half_even_def)

lemma round_half_even_floor_ceil:
  "\<lfloor>x\<rfloor> \<le> round_half_even x" "round_half_even x \<le> \<lfloor>x\<rfloor> + 1"
  unfolding round_half_even_def Let_def by auto

lemma round_half_even_mono:
  assumes "x \<le> y"
  shows "round_half_even x \<le> round_half_even y"
proof (cases "\<lfloor>x\<rfloor> = \<lfloor>y\<rfloor>")
  case True
  then have "x - of_int \<lfloor>x\<rfloor> \<le> y - of_int \<lfloor>y\<rfloor>" using assms by simp
  then show ?thesis unfolding round_half_even_def Let_def True by auto
next
  case False
  with assms have "\<lfloor>x\<rfloor> < \<lfloor>y\<rfloor>" by (simp add: floor_mono order.not_eq_order_implies_strict)
  then have "round_half_even x \<le> \<lfloor>y\<rfloor>" using round_half_even_floor_ceil(2)[of x] by simp
  also have "\<dots> \<le> round_half_even y" by (rule round_half_even_floor_ceil)
  finally show ?thesis .
qed

lemma round_half_even_nonneg: "0 \<le> x \<Longrightarrow> 0 \<le> round_half_even x"
  using round_half_even_mono[of 0 x] round_half_even_of_int[of 0] by simp

lemma scale_mono: "(m::int) \<le> n \<Longrightarrow> of_int m * (2::rat) powi e \<le> of_int n * 2 powi e"
  by (intro mult_right_mono) auto

lemma scale_strict: "(m::int) < n \<Longrightarrow> of_int m * (2::rat) powi e < of_int n * 2 powi e"
  by (intro mult_strict_right_mono) auto

lemma representable_0: "representable 0"
  unfolding representable_def by (intro exI[of _ 0] exI[of _ 0]) simp

lemma representable_minus: "representable v \<Longrightarrow> representable (- v)"
  unfolding representable_def
  by (elim exE, rule_tac x = "- m" in exI, rule_tac x = e in exI) simp

lemma representable_less_overflow:
  assumes "representable v"
  shows "\<bar>v\<bar> < pow2 1024"
proof -
  from assms obtain m e where v: "v = of_int m * pow2 e" and m: "\<bar>m\<bar> < 2 ^ 53" and e: "e \<le> 971"
    unfolding representable_def by blast
  have "\<bar>v\<bar> = of_int \<bar>m\<bar> * 2 powi e" unfolding v pow2_powi by (simp add: abs_mult)
  also have "\<dots> < of_int (2 ^ 53) * 2 powi e"
    using m by (rule scale_strict)
  also have "\<dots> = 2 powi (53 + e)" by (simp add: power_int_add)
  also have "\<dots> \<le> 2 powi 1024" using e by (intro power_int_increasing) simp_all
  finally show ?thesis by (simp add: pow2_powi)
qed

lemma round_mag_nonneg: "0 \<le> a \<Longrightarrow> 0 \<le> round_mag a"
  unfolding round_mag_def Let_def pow2_powi
  by (auto intro!: mult_nonneg_nonneg round_half_even_nonneg divide_nonneg_pos)

lemma round_mag_id:
  assumes "representable v" "0 \<le> v"
  shows "round_mag v = v"
proof (cases "v = 0")
  case True
  then show ?thesis by (simp add: round_mag_def)
next
  case False
  with assms have pos: "0 < v" by simp
  from assms obtain m e where v: "v = of_int m * 2 powi e" and m: "\<bar>m\<bar> < 2 ^ 53"
    and e: "- 1074 \<le> e" unfolding representable_def pow2_powi by blast
  have "0 < (2::rat) powi e" by simp
  with pos have "0 < (of_int m :: rat)" unfolding v by (rule zero_less_mult_pos2)
  then have mpos: "0 < m" by simp
  let ?E = "ilog2 v"
  let ?q = "max (?E - 52) (- 1074)"
  have "m < 2 ^ 53" using m by simp
  then have "v < of_int (2 ^ 53) * 2 powi e"
    unfolding v by (rule scale_strict)
  also have "\<dots> = 2 powi (53 + e)" by (simp add: power_int_add)
  finally have "2 powi ?E < (2::rat) powi (53 + e)" using ilog2_bounds(1)[OF pos] by linarith
  then have "?E < 53 + e" by (rule powi_less_cancel)
  with e have q: "?q \<le> e" by simp
  have "v / 2 powi ?q = of_int m * 2 powi (e - ?q)"
    unfolding v by (simp add: power_int_diff)
  also have "(2::rat) powi (e - ?q) = 2 ^ nat (e - ?q)"
    using q by (simp add: power_int_nonneg_exp)
  finally have "v / 2 powi ?q = of_int (m * 2 ^ nat (e - ?q))" by simp
  then have "round_half_even (v / 2 powi ?q) = m * 2 ^ nat (e - ?q)"
    by (simp only: round_half_even_of_int)
  then have "of_int (round_half_even (v / 2 powi ?q)) * 2 powi ?q = v / 2 powi ?q * 2 powi ?q"
    using \<open>v / 2 powi ?q = of_int (m * 2 ^ nat (e - ?q))\<close> by simp
  also have "\<dots> = v" by simp
  finally show ?thesis using False by (simp add: round_mag_def Let_def pow2_powi)
qed

lemma round_mag_upper:
  assumes "0 < a"
  shows "round_mag a \<le> 2 powi (max (ilog2 a + 1) (max (ilog2 a - 52) (- 1074)))"
proof -
  let ?e = "ilog2 a"
  let ?q = "max (?e - 52) (- 1074)"
  let ?U = "max (?e + 1) ?q"
  have U: "0 \<le> ?U - ?q" by simp
  have "a < 2 powi (?e + 1)" by (rule ilog2_bounds[OF assms])
  also have "\<dots> \<le> 2 powi ?U" by (intro power_int_increasing) simp_all
  finally have "a / 2 powi ?q \<le> 2 powi ?U / 2 powi ?q"
    by (intro divide_right_mono) simp_all
  also have "\<dots> = 2 powi (?U - ?q)" by (simp add: power_int_diff)
  also have "\<dots> = of_int (2 ^ nat (?U - ?q))" using U by (simp add: power_int_nonneg_exp)
  finally have "round_half_even (a / 2 powi ?q) \<le> round_half_even (of_int (2 ^ nat (?U - ?q)))"
    by (rule round_half_even_mono)
  then have "round_half_even (a / 2 powi ?q) \<le> 2 ^ nat (?U - ?q)"
    by (simp only: round_half_even_of_int)
  then have "(of_int (round_half_even (a / 2 powi ?q)) :: rat) \<le> of_int (2 ^ nat (?U - ?q))"
    by (simp only: of_int_le_iff)
  then have "of_int (round_half_even (a / 2 powi ?q)) * 2 powi ?q
               \<le> of_int (2 ^ nat (?U - ?q)) * (2::rat) powi ?q"
    by (intro mult_right_mono) simp_all
  also have "of_int (2 ^ nat (?U - ?q)) * (2::rat) powi ?q = 2 powi (?U - ?q) * 2 powi ?q"
    using U by (simp add: power_int_nonneg_exp)
  also have "\<dots> = 2 powi ?U" by (simp flip: power_int_add)
  finally show ?thesis using assms by (simp add: round_mag_def Let_def pow2_powi)
qed

lemma round_mag_lower:
  assumes "0 < a" "- 1074 \<le> ilog2 a - 52"
  shows "2 powi (ilog2 a) \<le> round_mag a"
proof -
  let ?e = "ilog2 a"
  let ?q = "?e - 52"
  have q: "max (?e - 52) (- 1074) = ?q" using assms(2) by simp
  have "(of_int (2 ^ 52) :: rat) = 2 powi (?e - ?q)" by simp
  also have "\<dots> = 2 powi ?e / 2 powi ?q" by (simp add: power_int_diff)
  also have "\<dots> \<le> a / 2 powi ?q"
    using ilog2_bounds(1)[OF assms(1)] by (intro divide_right_mono) simp_all
  finally have "round_half_even (of_int (2 ^ 52)) \<le> round_half_even (a / 2 powi ?q)"
    by (rule round_half_even_mono)
  then have "2 ^ 52 \<le> round_half_even (a / 2 powi ?q)"
    by (simp only: round_half_even_of_int)
  then have le: "of_int (2 ^ 52) * (2::rat) powi ?q \<le> of_int (round_half_even (a / 2 powi ?q)) * 2 powi ?q"
    by (rule scale_mono)
  have eq: "of_int (2 ^ 52) * (2::rat) powi ?q = 2 powi ?e"
  proof -
    have "(of_int (2 ^ 52) :: rat) * 2 powi ?q = 2 powi 52 * 2 powi ?q" by simp
    also have "(2::rat) powi 52 * 2 powi ?q = 2 powi (52 + ?q)"
      by (subst power_int_add) simp_all
    finally show ?thesis by simp
  qed
  from le have "(2::rat) powi ?e \<le> of_int (round_half_even (a / 2 powi ?q)) * 2 powi ?q"
    unfolding eq .
  then show ?thesis using assms(1) by (simp add: round_mag_def Let_def pow2_powi q)
qed

lemma round_mag_mono:
  assumes "0 \<le> a" "a \<le> b"
  shows "round_mag a \<le> round_mag b"
proof (cases "a = 0")
  case True
  then show ?thesis using round_mag_nonneg[of b] assms by (simp add: round_mag_def)
next
  case False
  with assms have a: "0 < a" and b: "0 < b" by simp_all
  let ?qa = "max (ilog2 a - 52) (- 1074)"
  let ?qb = "max (ilog2 b - 52) (- 1074)"
  from ilog2_mono[OF a assms(2)] have e: "ilog2 a \<le> ilog2 b" .
  show ?thesis
  proof (cases "?qa = ?qb")
    case True
    have "a / 2 powi ?qb \<le> b / 2 powi ?qb"
      using assms(2) by (intro divide_right_mono) simp_all
    then have "round_half_even (a / 2 powi ?qb) \<le> round_half_even (b / 2 powi ?qb)"
      by (rule round_half_even_mono)
    then have "(of_int (round_half_even (a / 2 powi ?qb)) :: rat) \<le> of_int (round_half_even (b / 2 powi ?qb))"
      by (simp only: of_int_le_iff)
    then have "of_int (round_half_even (a / 2 powi ?qb)) * 2 powi ?qb
                 \<le> of_int (round_half_even (b / 2 powi ?qb)) * (2::rat) powi ?qb"
      by (intro mult_right_mono) simp_all
    then show ?thesis using a b True by (simp add: round_mag_def Let_def pow2_powi)
  next
    case False
    with e have lt: "?qa < ?qb" by linarith
    then have qb: "- 1074 \<le> ilog2 b - 52" and ee: "ilog2 a < ilog2 b"
      by linarith+
    have "round_mag a \<le> 2 powi (max (ilog2 a + 1) ?qa)" by (rule round_mag_upper[OF a])
    also have "\<dots> \<le> 2 powi (ilog2 b)"
    proof (intro power_int_increasing)
      show "max (ilog2 a + 1) ?qa \<le> ilog2 b" using lt ee qb by linarith
    qed simp
    also have "\<dots> \<le> round_mag b" by (rule round_mag_lower[OF b qb])
    finally show ?thesis .
  qed
qed

lemma round_mag_representable:
  assumes "0 \<le> a" "round_mag a < pow2 1024"
  shows "representable (round_mag a)"
proof (cases "a = 0")
  case True
  then show ?thesis by (simp add: round_mag_def representable_0)
next
  case False
  with assms have a: "0 < a" by simp
  let ?e = "ilog2 a"
  let ?q = "max (?e - 52) (- 1074)"
  let ?M = "round_half_even (a / 2 powi ?q)"
  have rm: "round_mag a = of_int ?M * 2 powi ?q"
    using a by (simp add: round_mag_def Let_def pow2_powi)
  have M0: "0 \<le> ?M" using a by (intro round_half_even_nonneg) simp
  have "a / 2 powi ?q < 2 powi (?e + 1) / 2 powi ?q"
    using ilog2_bounds(2)[OF a] by (intro divide_strict_right_mono) simp_all
  also have "\<dots> = 2 powi (?e + 1 - ?q)" by (simp add: power_int_diff)
  also have "\<dots> \<le> 2 powi 53" by (intro power_int_increasing) simp_all
  also have "\<dots> = of_int (2 ^ 53)" by simp
  finally have "?M \<le> round_half_even (of_int (2 ^ 53))"
    by (intro round_half_even_mono) simp
  then have M53: "?M \<le> 2 ^ 53" by (simp only: round_half_even_of_int)
  show ?thesis
  proof (cases "?M = 2 ^ 53")
    case True
    have "round_mag a = 2 powi (53 + ?q)" unfolding rm True by (simp add: power_int_add)
    with assms(2) have "(2::rat) powi (53 + ?q) < 2 powi 1024" by (simp add: pow2_powi)
    then have q: "?q + 1 \<le> 971" using powi_less_cancel by fastforce
    have "round_mag a = of_int (2 ^ 52) * pow2 (?q + 1)"
      unfolding rm True pow2_powi by (simp add: power_int_add)
    moreover have "\<bar>2 ^ 52 :: int\<bar> < 2 ^ 53" by simp
    moreover have "- 1074 \<le> ?q + 1" by simp
    ultimately show ?thesis unfolding representable_def using q by blast
  next
    case False
    with M53 M0 have M: "\<bar>?M\<bar> < 2 ^ 53" by simp
    have q: "?q \<le> 971"
    proof (rule ccontr)
      assume "\<not> ?q \<le> 971"
      then have big: "971 < ?e - 52" and qe: "?q = ?e - 52" by simp_all
      then have "- 1074 \<le> ?e - 52" by simp
      from round_mag_lower[OF a this] have "2 powi ?e \<le> round_mag a" .
      moreover have "(2::rat) powi 1024 \<le> 2 powi ?e"
        using big by (intro power_int_increasing) simp_all
      ultimately show False using assms(2) by (simp add: pow2_powi)
    qed
    have "- 1074 \<le> ?q" by simp
    with rm M q show ?thesis unfolding representable_def pow2_powi by blast
  qed
qed

lemma round_to_double_cases:
  assumes "0 \<le> a"
  shows "round_to_double neg a = infinity neg \<or> round_to_double neg a = zero neg \<or>
         (\<exists>v. 0 < v \<and> representable v \<and> v = round_mag a \<and>
              round_to_double neg a = Fin (if neg then - v else v))"
proof -
  let ?v = "round_mag a"
  have v0: "0 \<le> ?v" by (rule round_mag_nonneg[OF assms])
  show ?thesis
  proof (cases "pow2 1024 \<le> ?v")
    case True
    then show ?thesis by (simp add: round_to_double_def infinity_def)
  next
    case False
    then have r: "representable ?v" using round_mag_representable[OF assms] by simp
    show ?thesis
    proof (cases "?v = 0")
      case True
      with False show ?thesis by (simp add: round_to_double_def zero_def)
    next
      case nz: False
      with v0 have "0 < ?v" by simp
      with False nz r show ?thesis by (simp add: round_to_double_def)
    qed
  qed
qed

lemma round_to_double_not_NaN: "round_to_double neg a \<noteq> NaN"
  by (simp add: round_to_double_def Let_def)

lemma round_to_double_is_double: "0 \<le> a \<Longrightarrow> is_double (round_to_double neg a)"
  using round_to_double_cases[of a neg]
  by (auto simp: infinity_def zero_def representable_0 representable_minus)

lemma round_to_double_negative: "0 \<le> a \<Longrightarrow> negative (round_to_double neg a) = neg"
  using round_to_double_cases[of a neg]
  by (cases neg) (auto simp: infinity_def zero_def)

lemma round_to_double_id:
  assumes "representable v" "0 < v"
  shows "round_to_double False v = Fin v"
proof -
  have "round_mag v = v" using assms by (simp add: round_mag_id)
  moreover have "v < pow2 1024" using representable_less_overflow[OF assms(1)] assms(2) by simp
  ultimately show ?thesis using assms(2) by (simp add: round_to_double_def)
qed

lemma round_to_double_le:
  assumes "0 \<le> a" "a \<le> b" "representable b"
  shows "\<exists>v. round_to_double neg a = Fin (if neg then - v else v) \<and> 0 < v \<and> v \<le> b
         \<or> round_to_double neg a = zero neg"
proof -
  have b0: "0 \<le> b" using assms by simp
  have "round_mag a \<le> round_mag b" by (rule round_mag_mono[OF assms(1,2)])
  also have "\<dots> = b" by (rule round_mag_id[OF assms(3) b0])
  finally have le: "round_mag a \<le> b" .
  moreover have "b < pow2 1024" using representable_less_overflow[OF assms(3)] b0 by simp
  ultimately have "\<not> pow2 1024 \<le> round_mag a" by simp
  with round_mag_nonneg[OF assms(1)] le show ?thesis
    by (cases "round_mag a = 0") (auto simp: round_to_double_def zero_def Let_def)
qed

lemma round_to_double_ge:
  assumes "0 < b" "b \<le> a" "representable b"
  shows "round_to_double False a = PosInf \<or> (\<exists>v. round_to_double False a = Fin v \<and> b \<le> v)"
proof -
  have "b = round_mag b" using assms by (simp add: round_mag_id)
  also have "\<dots> \<le> round_mag a" using assms by (intro round_mag_mono) simp_all
  finally have "b \<le> round_mag a" .
  with assms(1) show ?thesis by (auto simp: round_to_double_def Let_def)
qed

section \<open>Properties of the arithmetic\<close>

lemma pow2_pos: "0 < pow2 e"
  by (simp add: pow2_powi)

lemma round_to_double_0: "round_to_double neg 0 = zero neg"
  using pow2_pos[of 1024] by (simp add: round_to_double_def round_mag_def zero_def not_le)

lemma clamp_simps:
  "math_max (Fin 0) (math_min (Fin 1) NaN) = NaN"
  "math_max (Fin 0) (math_min (Fin 1) PosInf) = Fin 1"
  "math_max (Fin 0) (math_min (Fin 1) NegInf) = Fin 0"
  "math_max (Fin 0) (math_min (Fin 1) NegZero) = Fin 0"
  "math_max (Fin 0) (math_min (Fin 1) (Fin v)) = Fin (max 0 (min 1 v))"
  by (auto simp: math_max_def math_min_def)

lemma clamp_range:
  "x \<noteq> NaN \<Longrightarrow> \<exists>v. math_max (Fin 0) (math_min (Fin 1) x) = Fin v \<and> 0 \<le> v \<and> v \<le> 1"
  by (cases x) (auto simp: clamp_simps)

lemma clamp_le:
  "num_le x (Fin l) \<Longrightarrow> 0 \<le> l \<Longrightarrow> num_le (math_max (Fin 0) (math_min (Fin 1) x)) (Fin l)"
  by (cases x) (auto simp: clamp_simps num_le_def)

lemma clamp_ge:
  "num_le (Fin l) x \<Longrightarrow> l \<le> 1 \<Longrightarrow> num_le (Fin l) (math_max (Fin 0) (math_min (Fin 1) x))"
  by (cases x) (auto simp: clamp_simps num_le_def)

lemma clamp_id:
  "0 \<le> l \<Longrightarrow> l \<le> 1 \<Longrightarrow> math_max (Fin 0) (math_min (Fin 1) (Fin l)) = Fin l"
  by (simp add: clamp_simps)

lemma num_div_100:
  "num_div NaN (Fin 100) = NaN"
  "num_div PosInf (Fin 100) = PosInf"
  "num_div NegInf (Fin 100) = NegInf"
  "num_div NegZero (Fin 100) = NegZero"
  "num_div (Fin p) (Fin 100) = round_to_double (p < 0) (\<bar>p\<bar> / 100)"
  by (simp_all add: num_div_def infinity_def zero_def round_to_double_0)

lemma frac_not_NaN: "pct \<noteq> NaN \<Longrightarrow> num_div pct (Fin 100) \<noteq> NaN"
  by (cases pct) (simp_all add: num_div_100 round_to_double_not_NaN)

lemma frac_pos:
  "num_less (Fin 0) pct \<Longrightarrow> \<not> negative (num_div pct (Fin 100))"
  by (cases pct) (simp_all add: num_div_100 round_to_double_negative)

lemma frac_neg:
  "num_less pct (Fin 0) \<Longrightarrow> negative (num_div pct (Fin 100))"
  by (cases pct) (simp_all add: num_div_100 round_to_double_negative)

lemma frac_zero: "is_zero pct \<Longrightarrow> is_zero (num_div pct (Fin 100))"
  by (cases pct) (simp_all add: num_div_100 round_to_double_0 zero_def)

lemma frac_finite:
  assumes "is_double pct" "is_finite pct"
  shows "is_finite (num_div pct (Fin 100))"
proof (cases pct)
  case (Fin p)
  with assms have "representable \<bar>p\<bar>"
    by (cases "p < 0") (auto simp: abs_if dest: representable_minus)
  from round_to_double_le[of "\<bar>p\<bar> / 100" "\<bar>p\<bar>" "p < 0", OF _ _ this]
  show ?thesis unfolding Fin num_div_100 by (auto simp: zero_def)
qed (use assms in \<open>simp_all add: num_div_100\<close>)

lemma mul_not_NaN:
  "is_finite x \<Longrightarrow> y \<noteq> NaN \<Longrightarrow> is_zero x \<longrightarrow> is_finite y \<Longrightarrow> num_mul x y \<noteq> NaN"
  by (cases x; cases y) (auto simp: num_mul_def infinity_def round_to_double_not_NaN)

lemma mul_pos:
  "0 < l \<Longrightarrow> y \<noteq> NaN \<Longrightarrow> \<not> negative y \<Longrightarrow> \<not> negative (num_mul (Fin l) y)"
  by (cases y) (auto simp: num_mul_def infinity_def round_to_double_negative)

lemma mul_neg:
  "0 < l \<Longrightarrow> negative y \<Longrightarrow> negative (num_mul (Fin l) y)"
  by (cases y) (auto simp: num_mul_def infinity_def round_to_double_negative not_less)

lemma mul_zero:
  "is_finite x \<Longrightarrow> is_zero y \<Longrightarrow> is_zero (num_mul x y)"
  by (cases x; cases y) (auto simp: num_mul_def round_to_double_0 zero_def)

lemma sub_not_NaN: "is_finite x \<Longrightarrow> y \<noteq> NaN \<Longrightarrow> num_sub x y \<noteq> NaN"
  by (cases x; cases y)
     (auto simp: num_sub_def infinity_def zero_def Let_def round_to_double_not_NaN)

lemma sub_zero:
  assumes "is_zero y" "representable l" "0 \<le> l"
  shows "num_sub (Fin l) y = Fin l"
proof (cases "l = 0")
  case True
  with assms(1) show ?thesis by (cases y) (auto simp: num_sub_def zero_def)
next
  case False
  with assms have "round_to_double False l = Fin l" by (intro round_to_double_id) simp_all
  with assms False show ?thesis by (cases y) (auto simp: num_sub_def Let_def)
qed

lemma negative_le: "negative x \<Longrightarrow> 0 \<le> l \<Longrightarrow> num_le x (Fin l)"
  by (cases x) (auto simp: num_le_def)

lemma sub_pos:
  assumes "representable l" "0 < l" "y \<noteq> NaN" "\<not> negative y"
  shows "num_le (num_sub (Fin l) y) (Fin l)"
proof (cases y)
  case PosInf
  then show ?thesis by (simp add: num_sub_def infinity_def num_le_def)
next
  case (Fin m)
  with assms have m: "0 \<le> m" by simp
  show ?thesis
  proof (cases "l - m = 0")
    case True
    then show ?thesis using assms(2) unfolding Fin by (simp add: num_sub_def zero_def num_le_def)
  next
    case nz: False
    show ?thesis
    proof (cases "l - m < 0")
      case True
      then have "negative (round_to_double True \<bar>l - m\<bar>)"
        by (simp add: round_to_double_negative)
      from negative_le[OF this, of l] assms(2) True nz show ?thesis
        unfolding Fin by (simp add: num_sub_def Let_def)
    next
      case False
      with nz have d: "0 \<le> l - m" "l - m \<le> l" using m by simp_all
      from round_to_double_le[OF d assms(1), of False]
      have "num_le (round_to_double False (l - m)) (Fin l)"
        using assms(2) by (auto simp: zero_def num_le_def)
      with False nz show ?thesis unfolding Fin by (simp add: num_sub_def Let_def abs_if)
    qed
  qed
qed (use assms in simp_all)

lemma sub_neg:
  assumes "representable l" "0 < l" "negative y"
  shows "num_le (Fin l) (num_sub (Fin l) y)"
proof (cases y)
  case NegInf
  then show ?thesis by (simp add: num_sub_def infinity_def num_le_def)
next
  case NegZero
  with assms show ?thesis
    by (simp add: num_sub_def Let_def round_to_double_id num_le_def)
next
  case (Fin m)
  with assms have m: "m < 0" by simp
  then have d: "l \<le> l - m" "0 < l - m" using assms(2) by simp_all
  from round_to_double_ge[OF assms(2) d(1) assms(1)]
  have "num_le (Fin l) (round_to_double False (l - m))"
    by (auto simp: num_le_def)
  with d show ?thesis unfolding Fin by (simp add: num_sub_def Let_def abs_if)
qed (use assms in simp_all)

lemma clamped_lightness_range:
  assumes "is_finite l" "pct \<noteq> NaN" "is_double pct" "is_zero l \<longrightarrow> is_finite pct"
  shows "\<exists>v. clamped_lightness l pct = Fin v \<and> 0 \<le> v \<and> v \<le> 1"
proof -
  let ?f = "num_div pct (Fin 100)"
  have f: "?f \<noteq> NaN" by (rule frac_not_NaN[OF assms(2)])
  have "is_zero l \<longrightarrow> is_finite ?f" using assms(3,4) by (auto intro: frac_finite)
  with assms(1) f have "num_mul l ?f \<noteq> NaN" by (intro mul_not_NaN)
  with assms(1) have "num_sub l (num_mul l ?f) \<noteq> NaN" by (intro sub_not_NaN)
  then show ?thesis unfolding clamped_lightness_def by (rule clamp_range)
qed

lemma clamped_lightness_zero:
  assumes "is_zero pct" "representable l" "0 \<le> l" "l \<le> 1"
  shows "clamped_lightness (Fin l) pct = Fin l"
proof -
  have "is_zero (num_mul (Fin l) (num_div pct (Fin 100)))"
    by (intro mul_zero frac_zero assms(1)) simp
  from sub_zero[OF this assms(2,3)] show ?thesis
    unfolding clamped_lightness_def using assms(3,4) by (simp add: clamp_id)
qed

lemma clamped_lightness_darker:
  assumes "representable l" "0 < l" "num_less (Fin 0) pct"
  shows "num_le (clamped_lightness (Fin l) pct) (Fin l)"
proof -
  let ?f = "num_div pct (Fin 100)"
  from assms(3) have "pct \<noteq> NaN" by (cases pct) simp_all
  then have f: "?f \<noteq> NaN" "\<not> negative ?f" using assms(3) by (simp_all add: frac_not_NaN frac_pos)
  then have "is_zero (Fin l) \<longrightarrow> is_finite ?f" using assms(2) by simp
  with f have "num_mul (Fin l) ?f \<noteq> NaN" by (intro mul_not_NaN) simp_all
  moreover have "\<not> negative (num_mul (Fin l) ?f)" using assms(2) f by (intro mul_pos)
  ultimately have "num_le (num_sub (Fin l) (num_mul (Fin l) ?f)) (Fin l)"
    using assms(1,2) by (intro sub_pos)
  then show ?thesis unfolding clamped_lightness_def using assms(2) by (intro clamp_le) simp_all
qed

lemma clamped_lightness_lighter:
  assumes "representable l" "0 < l" "l \<le> 1" "num_less pct (Fin 0)"
  shows "num_le (Fin l) (clamped_lightness (Fin l) pct)"
proof -
  let ?f = "num_div pct (Fin 100)"
  have "negative ?f" using assms(4) by (rule frac_neg)
  then have "negative (num_mul (Fin l) ?f)" using assms(2) by (intro mul_neg)
  then have "num_le (Fin l) (num_sub (Fin l) (num_mul (Fin l) ?f))"
    using assms(1,2) by (intro sub_neg)
  then show ?thesis unfolding clamped_lightness_def using assms(3) by (intro clamp_ge)
qed

subsection \<open>When a subtraction changes its first operand\<close>

lemma round_half_even_error: "\<bar>of_int (round_half_even x) - x\<bar> \<le> 1 / 2"
proof -
  have a: "of_int \<lfloor>x\<rfloor> \<le> x" and b: "x < of_int \<lfloor>x\<rfloor> + 1" by linarith+
  consider (lo) "x - of_int \<lfloor>x\<rfloor> < 1 / 2" | (hi) "1 / 2 < x - of_int \<lfloor>x\<rfloor>"
    | (tie) "x - of_int \<lfloor>x\<rfloor> = 1 / 2" by linarith
  then show ?thesis
  proof cases
    case lo
    then have eq: "round_half_even x = \<lfloor>x\<rfloor>" by (simp add: round_half_even_def Let_def)
    show ?thesis unfolding eq using a lo by linarith
  next
    case hi
    then have eq: "round_half_even x = \<lfloor>x\<rfloor> + 1" by (simp add: round_half_even_def Let_def)
    show ?thesis unfolding eq of_int_add of_int_1 using b hi by linarith
  next
    case tie
    then have "round_half_even x = \<lfloor>x\<rfloor> \<or> round_half_even x = \<lfloor>x\<rfloor> + 1"
      by (simp add: round_half_even_def Let_def)
    then show ?thesis
    proof
      assume eq: "round_half_even x = \<lfloor>x\<rfloor>"
      show ?thesis unfolding eq using tie by linarith
    next
      assume eq: "round_half_even x = \<lfloor>x\<rfloor> + 1"
      show ?thesis unfolding eq of_int_add of_int_1 using tie by linarith
    qed
  qed
qed

lemma round_mag_error:
  assumes "0 < a"
  shows "\<bar>round_mag a - a\<bar> \<le> 2 powi (max (ilog2 a - 52) (- 1074)) / 2"
proof -
  let ?u = "(2::rat) powi (max (ilog2 a - 52) (- 1074))"
  have u: "0 < ?u" by simp
  have "round_mag a - a = (of_int (round_half_even (a / ?u)) - a / ?u) * ?u"
    using assms u by (simp add: round_mag_def Let_def pow2_powi left_diff_distrib)
  then have "\<bar>round_mag a - a\<bar> = \<bar>of_int (round_half_even (a / ?u)) - a / ?u\<bar> * ?u"
    using u by (simp add: abs_mult)
  also have "\<dots> \<le> 1 / 2 * ?u"
    using u by (intro mult_right_mono round_half_even_error) simp
  finally show ?thesis by simp
qed

lemma representable_pos_ge:
  assumes "representable v" "0 < v"
  shows "2 powi (- 1074) \<le> v"
proof -
  from assms obtain m e where v: "v = of_int m * 2 powi e" and e: "- 1074 \<le> e"
    unfolding representable_def pow2_powi by blast
  have "0 < (2::rat) powi e" by simp
  with assms(2) have "0 < (of_int m :: rat)" unfolding v by (rule zero_less_mult_pos2)
  then have "1 \<le> m" by simp
  have "(2::rat) powi (- 1074) \<le> 2 powi e" using e by (intro power_int_increasing) simp_all
  also have "\<dots> = of_int 1 * 2 powi e" by simp
  also have "\<dots> \<le> of_int m * 2 powi e" using \<open>1 \<le> m\<close> by (rule scale_mono)
  finally show ?thesis unfolding v .
qed

lemma half_spacing_less:
  assumes "0 < l" "l / 2 ^ 53 < mm" "2 powi (- 1074) \<le> mm"
  shows "2 powi (max (ilog2 l - 52) (- 1074)) / 2 < mm"
proof (cases "- 1074 \<le> ilog2 l - 52")
  case True
  then have "max (ilog2 l - 52) (- 1074) = ilog2 l - 52" by simp
  moreover have "(2::rat) powi (ilog2 l - 52) / 2 = 2 powi (ilog2 l) / 2 ^ 53"
    by (simp add: power_int_diff)
  moreover have "(2::rat) powi (ilog2 l) / 2 ^ 53 \<le> l / 2 ^ 53"
    using ilog2_bounds(1)[OF assms(1)] by (intro divide_right_mono) simp_all
  ultimately show ?thesis using assms(2) by simp
next
  case False
  then have "max (ilog2 l - 52) (- 1074) = - 1074" by simp
  moreover have "(2::rat) powi (- 1074) / 2 < 2 powi (- 1074)" by simp
  ultimately show ?thesis using assms(3) by simp
qed

lemma round_mag_below:
  assumes "0 < d" "d < l" "2 powi (max (ilog2 l - 52) (- 1074)) / 2 < l - d"
  shows "round_mag d < l"
proof (rule ccontr)
  assume "\<not> round_mag d < l"
  then have "l - d \<le> round_mag d - d" by simp
  also have "\<dots> \<le> 2 powi (max (ilog2 d - 52) (- 1074)) / 2"
    using round_mag_error[OF assms(1)] by linarith
  also have "\<dots> \<le> 2 powi (max (ilog2 l - 52) (- 1074)) / 2"
  proof -
    have "ilog2 d \<le> ilog2 l" using assms(1,2) by (intro ilog2_mono) simp_all
    then have "(2::rat) powi (max (ilog2 d - 52) (- 1074)) \<le> 2 powi (max (ilog2 l - 52) (- 1074))"
      by (intro power_int_increasing) simp_all
    then show ?thesis by simp
  qed
  finally show False using assms(3) by simp
qed

lemma round_mag_above:
  assumes "0 < l" "l < s" "2 powi (max (ilog2 l - 52) (- 1074)) / 2 < s - l"
  shows "l < round_mag s"
proof (cases "max (ilog2 s - 52) (- 1074) = max (ilog2 l - 52) (- 1074)")
  case True
  have s: "0 < s" using assms(1,2) by simp
  show ?thesis
  proof (rule ccontr)
    assume "\<not> l < round_mag s"
    then have "s - l \<le> s - round_mag s" by simp
    also have "\<dots> \<le> 2 powi (max (ilog2 s - 52) (- 1074)) / 2"
      using round_mag_error[OF s] by linarith
    finally show False using assms(3) unfolding True by simp
  qed
next
  case False
  have s: "0 < s" using assms(1,2) by simp
  have "ilog2 l \<le> ilog2 s" using assms(1,2) by (intro ilog2_mono) simp_all
  with False have lt: "ilog2 l < ilog2 s" and q: "- 1074 \<le> ilog2 s - 52" by linarith+
  have "l < 2 powi (ilog2 l + 1)" by (rule ilog2_bounds(2)[OF assms(1)])
  also have "\<dots> \<le> 2 powi (ilog2 s)" using lt by (intro power_int_increasing) simp_all
  also have "\<dots> \<le> round_mag s" by (rule round_mag_lower[OF s q])
  finally show ?thesis .
qed

lemma round_mag_ge_half:
  assumes "2 powi (- 1074) \<le> y"
  shows "y / 2 \<le> round_mag y"
proof -
  have "0 < (2::rat) powi (- 1074)" by simp
  with assms have y: "0 < y" by linarith
  have "2 powi (max (ilog2 y - 52) (- 1074)) \<le> y"
  proof (cases "- 1074 \<le> ilog2 y - 52")
    case True
    then have "(2::rat) powi (max (ilog2 y - 52) (- 1074)) = 2 powi (ilog2 y - 52)" by simp
    also have "\<dots> \<le> 2 powi (ilog2 y)" by (intro power_int_increasing) simp_all
    also have "\<dots> \<le> y" by (rule ilog2_bounds(1)[OF y])
    finally show ?thesis .
  next
    case False
    then have "max (ilog2 y - 52) (- 1074) = - 1074" by simp
    then show ?thesis using assms by simp
  qed
  with round_mag_error[OF y] show ?thesis by (simp add: abs_if split: if_splits)
qed

lemma negative_less: "negative x \<Longrightarrow> 0 < l \<Longrightarrow> num_less x (Fin l)"
  by (cases x) auto

lemma num_mul_is_double: "is_double (num_mul x y)"
  by (auto simp: num_mul_def infinity_def intro: round_to_double_is_double)

lemma round_to_double_less:
  assumes "representable l" "round_mag d < l"
  shows "num_less (round_to_double False d) (Fin l)"
proof -
  from representable_less_overflow[OF assms(1)] have "l < pow2 1024" by simp
  with assms(2) show ?thesis by (simp add: round_to_double_def Let_def)
qed

lemma round_to_double_greater:
  assumes "0 < l" "l < round_mag d"
  shows "num_less (Fin l) (round_to_double False d)"
  using assms by (simp add: round_to_double_def Let_def)

lemma round_to_double_smaller:
  assumes "0 < l" "l < round_mag d"
  shows "num_less (round_to_double True d) (Fin (- l))"
  using assms by (simp add: round_to_double_def Let_def)

lemma sub_pos_strict:
  assumes "representable l" "0 < l" "is_double y" "num_less (Fin (l / 2 ^ 53)) y"
  shows "num_less (num_sub (Fin l) y) (Fin l)"
proof (cases y)
  case PosInf
  then show ?thesis by (simp add: num_sub_def infinity_def)
next
  case (Fin m)
  with assms have m: "l / 2 ^ 53 < m" "representable m" by simp_all
  from assms(2) have "0 < l / 2 ^ 53" by simp
  with m(1) have m0: "0 < m" by linarith
  from representable_pos_ge[OF m(2) m0] have tiny: "2 powi (- 1074) \<le> m" .
  show ?thesis
  proof (cases "l - m = 0")
    case True
    then show ?thesis using assms(2) unfolding Fin by (simp add: num_sub_def zero_def)
  next
    case nz: False
    show ?thesis
    proof (cases "l - m < 0")
      case True
      then have "negative (round_to_double True \<bar>l - m\<bar>)"
        by (simp add: round_to_double_negative)
      from negative_less[OF this assms(2)] True nz show ?thesis
        unfolding Fin by (simp add: num_sub_def Let_def)
    next
      case False
      with nz have d: "0 < l - m" "l - m < l" using m0 by simp_all
      have "2 powi (max (ilog2 l - 52) (- 1074)) / 2 < l - (l - m)"
        using half_spacing_less[OF assms(2) m(1) tiny] by simp
      from round_mag_below[OF d this] have "round_mag (l - m) < l" .
      from round_to_double_less[OF assms(1) this] False nz show ?thesis
        unfolding Fin by (simp add: num_sub_def Let_def abs_if)
    qed
  qed
qed (use assms in simp_all)

lemma sub_neg_strict:
  assumes "0 < l" "is_double y" "num_less y (Fin (- (l / 2 ^ 53)))"
  shows "num_less (Fin l) (num_sub (Fin l) y)"
proof (cases y)
  case NegInf
  then show ?thesis by (simp add: num_sub_def infinity_def)
next
  case (Fin m)
  with assms have m: "l / 2 ^ 53 < - m" "representable (- m)"
    by (simp_all add: representable_minus)
  from assms(1) have "0 < l / 2 ^ 53" by simp
  with m(1) have m0: "0 < - m" by linarith
  from representable_pos_ge[OF m(2) m0] have tiny: "2 powi (- 1074) \<le> - m" .
  have d: "l < l - m" "0 < l - m" using m0 assms(1) by simp_all
  have "2 powi (max (ilog2 l - 52) (- 1074)) / 2 < (l - m) - l"
    using half_spacing_less[OF assms(1) m(1) tiny] by simp
  from round_mag_above[OF assms(1) d(1) this] have "l < round_mag (l - m)" .
  from round_to_double_greater[OF assms(1) this] d show ?thesis
    unfolding Fin by (simp add: num_sub_def Let_def abs_if)
next
  case NegZero
  with assms show ?thesis by simp
qed (use assms in simp_all)

lemma clamp_less:
  "num_less x (Fin l) \<Longrightarrow> 0 < l \<Longrightarrow> num_less (math_max (Fin 0) (math_min (Fin 1) x)) (Fin l)"
  by (cases x) (auto simp: clamp_simps)

lemma clamp_greater:
  "num_less (Fin l) x \<Longrightarrow> 0 < l \<Longrightarrow>
   num_less (Fin l) (math_max (Fin 0) (math_min (Fin 1) x)) \<or>
   math_max (Fin 0) (math_min (Fin 1) x) = Fin 1"
  by (cases x) (auto simp: clamp_simps)


lemma clamped_lightness_strictly_darker:
  assumes "representable l" "0 < l"
    and "num_less (Fin (l / 2 ^ 53)) (num_mul (Fin l) (num_div pct (Fin 100)))"
  shows "num_less (clamped_lightness (Fin l) pct) (Fin l)"
  unfolding clamped_lightness_def
  by (intro clamp_less sub_pos_strict assms num_mul_is_double)

lemma clamped_lightness_strictly_lighter:
  assumes "0 < l"
    and "num_less (num_mul (Fin l) (num_div pct (Fin 100))) (Fin (- (l / 2 ^ 53)))"
  shows "num_less (Fin l) (clamped_lightness (Fin l) pct) \<or> clamped_lightness (Fin l) pct = Fin 1"
  unfolding clamped_lightness_def
  by (intro clamp_greater sub_neg_strict assms num_mul_is_double)

text \<open>
  The product \<open>L * frac\<close> is above \<open>L / 2\<^sup>5\<^sup>3\<close> in magnitude when \<open>L\<close> is at least \<open>2\<^sup>-\<^sup>1\<^sup>0\<^sup>2\<^sup>2\<close>, the
  smallest normal binary64 value, and the percentage is at least \<open>10\<^sup>-\<^sup>1\<^sup>3\<close> in magnitude.
\<close>

lemma frac_magnitude:
  assumes "1 / 10 ^ 13 \<le> p"
  shows "2 powi (- 50) \<le> round_mag (p / 100)"
proof -
  have r: "representable (2 powi (- 50))"
    unfolding representable_def pow2_powi
    by (intro exI[of _ 1] exI[of _ "- 50"]) simp
  have "(2::rat) powi (- 50) = 1 / 2 ^ 50" by (simp add: power_int_minus field_simps)
  also have "\<dots> \<le> 1 / 10 ^ 15" by simp
  also have "\<dots> \<le> p / 100" using assms by simp
  finally have le: "(2::rat) powi (- 50) \<le> p / 100" .
  have "round_mag (2 powi (- 50)) \<le> round_mag (p / 100)"
    by (intro round_mag_mono le) simp
  then show ?thesis using round_mag_id[OF r] by simp
qed

lemma product_magnitude:
  assumes "2 powi (- 1022) \<le> l" "2 powi (- 50) \<le> f"
  shows "l / 2 ^ 53 < round_mag (l * f)"
proof -
  have "0 < (2::rat) powi (- 1022)" by simp
  with assms(1) have l: "0 < l" by linarith
  have "(2::rat) powi (- 1072) = 2 powi (- 1022) * 2 powi (- 50)"
    by (simp flip: power_int_add)
  also have "\<dots> \<le> l * f" using assms by (intro mult_mono) simp_all
  finally have x: "(2::rat) powi (- 1072) \<le> l * f" .
  have "(2::rat) powi (- 1074) \<le> 2 powi (- 1072)" by (intro power_int_increasing) simp_all
  with x have "2 powi (- 1074) \<le> l * f" by linarith
  from round_mag_ge_half[OF this] have h: "l * f / 2 \<le> round_mag (l * f)" .
  have le: "l * 2 powi (- 50) \<le> l * f" using assms(2) l by (intro mult_left_mono) simp_all
  have "l / 2 ^ 53 < l / 2 ^ 51" using l by (intro divide_strict_left_mono) simp_all
  also have "\<dots> = l * 2 powi (- 50) / 2" by (simp add: power_int_minus field_simps)
  also have "\<dots> \<le> l * f / 2" using le by (intro divide_right_mono) simp_all
  also note h
  finally show ?thesis .
qed

lemma product_not_lost_pos:
  assumes "2 powi (- 1022) \<le> l" "num_le (Fin (1 / 10 ^ 13)) pct"
  shows "num_less (Fin (l / 2 ^ 53)) (num_mul (Fin l) (num_div pct (Fin 100)))"
proof -
  have "0 < (2::rat) powi (- 1022)" by simp
  with assms(1) have l: "0 < l" by linarith
  show ?thesis
  proof (cases pct)
    case PosInf
    then show ?thesis using l by (simp add: num_div_100 num_mul_def infinity_def)
  next
    case (Fin p)
    with assms(2) have p: "1 / 10 ^ 13 \<le> p" by (simp add: num_le_def)
    then have p0: "0 < p" by (rule less_le_trans[rotated]) simp
    from frac_magnitude[OF p] have f: "2 powi (- 50) \<le> round_mag (p / 100)" .
    have f0: "0 < round_mag (p / 100)" by (rule less_le_trans[OF _ f]) simp
    let ?f = "round_to_double False (p / 100)"
    have frac: "num_div pct (Fin 100) = ?f" using p0 unfolding Fin by (simp add: num_div_100)
    show ?thesis
    proof (cases "pow2 1024 \<le> round_mag (p / 100)")
      case True
      then show ?thesis unfolding frac using l
        by (simp add: round_to_double_def num_mul_def infinity_def)
    next
      case False
      with f0 have v: "?f = Fin (round_mag (p / 100))" by (simp add: round_to_double_def)
      have "0 < l / 2 ^ 53" using l by simp
      from round_to_double_greater[OF this product_magnitude[OF assms(1) f]]
      have "num_less (Fin (l / 2 ^ 53)) (round_to_double False (l * round_mag (p / 100)))" .
      moreover have "num_mul (Fin l) (Fin (round_mag (p / 100))) =
                     round_to_double False (l * round_mag (p / 100))"
        using l f0 by (simp add: num_mul_def abs_mult)
      ultimately show ?thesis unfolding frac v by simp
    qed
  qed (use assms(2) in \<open>simp_all add: num_le_def\<close>)
qed

lemma product_not_lost_neg:
  assumes "2 powi (- 1022) \<le> l" "num_le pct (Fin (- (1 / 10 ^ 13)))"
  shows "num_less (num_mul (Fin l) (num_div pct (Fin 100))) (Fin (- (l / 2 ^ 53)))"
proof -
  have "0 < (2::rat) powi (- 1022)" by simp
  with assms(1) have l: "0 < l" by linarith
  show ?thesis
  proof (cases pct)
    case NegInf
    then show ?thesis using l by (simp add: num_div_100 num_mul_def infinity_def)
  next
    case (Fin p)
    with assms(2) have p: "1 / 10 ^ 13 \<le> - p" by (simp add: num_le_def)
    then have p0: "0 < - p" by (rule less_le_trans[rotated]) simp
    from frac_magnitude[OF p] have f: "2 powi (- 50) \<le> round_mag (- p / 100)" by simp
    have f0: "0 < round_mag (- p / 100)" by (rule less_le_trans[OF _ f]) simp
    let ?f = "round_to_double True (- p / 100)"
    have frac: "num_div pct (Fin 100) = ?f" using p0 unfolding Fin by (simp add: num_div_100 abs_if)
    show ?thesis
    proof (cases "pow2 1024 \<le> round_mag (- p / 100)")
      case True
      then show ?thesis unfolding frac using l
        by (simp add: round_to_double_def num_mul_def infinity_def)
    next
      case False
      with f0 have v: "?f = Fin (- round_mag (- p / 100))" by (simp add: round_to_double_def)
      have "0 < l / 2 ^ 53" using l by simp
      from round_to_double_smaller[OF this product_magnitude[OF assms(1) f]]
      have "num_less (round_to_double True (l * round_mag (- p / 100))) (Fin (- (l / 2 ^ 53)))" .
      moreover have "num_mul (Fin l) (Fin (- round_mag (- p / 100))) =
                     round_to_double True (l * round_mag (- p / 100))"
        using l f0 by (simp add: num_mul_def abs_mult)
      ultimately show ?thesis unfolding frac v by simp
    qed
  next
    case NegZero
    with assms(2) show ?thesis by (simp add: num_le_def)
  qed (use assms(2) in \<open>simp_all add: num_le_def\<close>)
qed

section \<open>Properties of parsing and printing\<close>

lemma pow10_pos: "0 < pow10 e"
  by (simp add: pow10_powi)

lemma digit_val_range: "is_digit c \<Longrightarrow> 0 \<le> digit_val c \<and> digit_val c \<le> 9"
  by (auto simp: is_digit_def digit_val_def)

lemma digit_char_digit:
  assumes "0 \<le> d" "d < 10"
  shows "is_digit (digit_char d)" "digit_val (digit_char d) = d"
proof -
  from assms have "d = 0 \<or> d = 1 \<or> d = 2 \<or> d = 3 \<or> d = 4 \<or> d = 5 \<or> d = 6 \<or> d = 7 \<or> d = 8 \<or> d = 9"
    by arith
  then show "is_digit (digit_char d)" "digit_val (digit_char d) = d"
    by (elim disjE; simp add: digit_char_def is_digit_def digit_val_def)+
qed

lemma foldl_digits:
  "foldl (\<lambda>n c. 10 * n + digit_val c) a ds =
     a * 10 ^ length ds + foldl (\<lambda>n c. 10 * n + digit_val c) 0 ds"
proof (induction ds arbitrary: a)
  case Nil
  then show ?case by simp
next
  case (Cons c ds)
  let ?f = "\<lambda>n c. 10 * n + digit_val c"
  have "foldl ?f a (c # ds) = foldl ?f (10 * a + digit_val c) ds" by simp
  also have "\<dots> = (10 * a + digit_val c) * 10 ^ length ds + foldl ?f 0 ds" by (rule Cons.IH)
  finally have l: "foldl ?f a (c # ds) = (10 * a + digit_val c) * 10 ^ length ds + foldl ?f 0 ds" .
  have "foldl ?f 0 (c # ds) = foldl ?f (digit_val c) ds" by simp
  also have "\<dots> = digit_val c * 10 ^ length ds + foldl ?f 0 ds" by (rule Cons.IH)
  finally have r: "foldl ?f 0 (c # ds) = digit_val c * 10 ^ length ds + foldl ?f 0 ds" .
  show ?case unfolding l r by (simp add: algebra_simps)
qed

lemma digits_value_append:
  "digits_value (xs @ ys) = digits_value xs * 10 ^ length ys + digits_value ys"
  unfolding digits_value_def foldl_append by (rule foldl_digits)

lemma digits_value_nonneg: "\<forall>c \<in> set ds. is_digit c \<Longrightarrow> 0 \<le> digits_value ds"
proof (induction ds rule: rev_induct)
  case Nil
  then show ?case by (simp add: digits_value_def)
next
  case (snoc c ds)
  then have "0 \<le> digits_value ds" "0 \<le> digit_val c" by (auto dest: digit_val_range)
  then show ?case by (simp add: digits_value_append) (simp add: digits_value_def)
qed

lemma digits_value_single: "digits_value [c] = digit_val c"
  by (simp add: digits_value_def)

lemma digits10_props:
  "0 \<le> n \<Longrightarrow> digits10 n \<noteq> [] \<and> (\<forall>c \<in> set (digits10 n). is_digit c) \<and> digits_value (digits10 n) = n"
proof (induction n rule: digits10.induct)
  case (1 n)
  show ?case
  proof (cases "n < 10")
    case True
    with "1.prems" digit_char_digit[of n] show ?thesis
      by (simp add: digits10.simps[of n] digits_value_single)
  next
    case False
    then have ih: "digits10 (n div 10) \<noteq> []" "\<forall>c \<in> set (digits10 (n div 10)). is_digit c"
      "digits_value (digits10 (n div 10)) = n div 10"
      using "1.IH" "1.prems" by auto
    have m: "0 \<le> n mod 10" "n mod 10 < 10" by simp_all
    from digit_char_digit[OF m] ih False show ?thesis
      by (simp add: digits10.simps[of n] digits_value_append digits_value_single)
  qed
qed

lemma digits_value_zeros: "digits_value (replicate k CHR ''0'' @ ds) = digits_value ds"
proof (induction k)
  case 0
  then show ?case by simp
next
  case (Suc k)
  have "digits_value (CHR ''0'' # replicate k CHR ''0'' @ ds)
          = digits_value ([CHR ''0''] @ (replicate k CHR ''0'' @ ds))" by simp
  also have "\<dots> = digits_value (replicate k CHR ''0'' @ ds)"
    unfolding digits_value_append[of "[CHR ''0'']"] by (simp add: digits_value_single digit_val_def)
  finally show ?case using Suc by simp
qed

lemma fixed_digits_4:
  assumes "0 \<le> a"
  shows "\<exists>ip fp. fixed_digits a 4 = ip @ ''.'' @ fp \<and> ip \<noteq> [] \<and> length fp = 4 \<and>
            (\<forall>c \<in> set ip. is_digit c) \<and> (\<forall>c \<in> set fp. is_digit c) \<and>
            digits_value (ip @ fp) = \<lfloor>a * 10 ^ 4 + 1 / 2\<rfloor>"
proof -
  let ?n = "\<lfloor>a * 10 ^ 4 + 1 / 2\<rfloor>"
  let ?d = "digits10 ?n"
  let ?m = "if length ?d \<le> 4 then replicate (5 - length ?d) CHR ''0'' @ ?d else ?d"
  have n: "0 \<le> ?n" using assms by simp
  from digits10_props[OF n] have d: "?d \<noteq> []" "\<forall>c \<in> set ?d. is_digit c" "digits_value ?d = ?n"
    by auto
  have z: "is_digit CHR ''0''" by (simp add: is_digit_def)
  have m: "5 \<le> length ?m" "\<forall>c \<in> set ?m. is_digit c" "digits_value ?m = ?n"
    using d z by (auto simp: digits_value_zeros)
  have p: "pow10 (int 4) = 10 ^ 4" by (simp add: pow10_powi)
  have f: "fixed_digits a 4 = take (length ?m - 4) ?m @ ''.'' @ drop (length ?m - 4) ?m"
    unfolding fixed_digits_def p Let_def by simp
  have "take (length ?m - 4) ?m \<noteq> []" using m(1) by auto
  moreover have "length (drop (length ?m - 4) ?m) = 4" using m(1) by auto
  moreover have "\<forall>c \<in> set (take (length ?m - 4) ?m). is_digit c"
    using m(2) by (meson in_set_takeD)
  moreover have "\<forall>c \<in> set (drop (length ?m - 4) ?m). is_digit c"
    using m(2) by (meson in_set_dropD)
  moreover have "digits_value (take (length ?m - 4) ?m @ drop (length ?m - 4) ?m) = ?n"
    using m(3) by simp
  ultimately show ?thesis using f by blast
qed

lemma dot_not_digit: "\<not> is_digit CHR ''.''" "\<not> is_digit CHR '' ''" "\<not> is_digit CHR ''I''"
  "\<not> is_digit CHR ''-''" "\<not> is_digit CHR ''+''"
  by (simp_all add: is_digit_def)

lemma fixed_point_parts:
  assumes "\<forall>c \<in> set ip. is_digit c"
  shows "takeWhile is_digit (ip @ ''.'' @ fp) = ip" "dropWhile is_digit (ip @ ''.'' @ fp) = ''.'' @ fp"
  using assms by (simp_all add: dot_not_digit)

lemma is_fixed4_I:
  assumes "ip \<noteq> []" "length fp = 4" "\<forall>c \<in> set ip. is_digit c" "\<forall>c \<in> set fp. is_digit c"
  shows "is_fixed4 (ip @ ''.'' @ fp)"
  unfolding is_fixed4_def Let_def fixed_point_parts[OF assms(3)]
  using assms by (simp add: list_all_iff)

lemma fixed_value_I:
  assumes "\<forall>c \<in> set ip. is_digit c"
  shows "fixed_value (ip @ ''.'' @ fp) = of_int (digits_value (ip @ fp)) / 10 ^ length fp"
  unfolding fixed_value_def Let_def fixed_point_parts[OF assms] by simp

lemma toFixed_digits_Fin:
  "0 \<le> v \<Longrightarrow> v < pow10 21 \<Longrightarrow> toFixed_digits (Fin v) f = fixed_digits v f"
  by (simp add: toFixed_digits_def Let_def)

lemma toFixed_4_shape:
  assumes "0 \<le> v" "v < pow10 21"
  shows "is_fixed4 (toFixed_digits (Fin v) 4)"
    and "fixed_value (toFixed_digits (Fin v) 4) = of_int \<lfloor>v * 10 ^ 4 + 1 / 2\<rfloor> / 10 ^ 4"
proof -
  from fixed_digits_4[OF assms(1)] obtain ip fp where
    *: "fixed_digits v 4 = ip @ ''.'' @ fp" "ip \<noteq> []" "length fp = 4"
       "\<forall>c \<in> set ip. is_digit c" "\<forall>c \<in> set fp. is_digit c"
       "digits_value (ip @ fp) = \<lfloor>v * 10 ^ 4 + 1 / 2\<rfloor>" by blast
  show "is_fixed4 (toFixed_digits (Fin v) 4)"
    unfolding toFixed_digits_Fin[OF assms] *(1) by (rule is_fixed4_I[OF *(2-5)])
  show "fixed_value (toFixed_digits (Fin v) 4) = of_int \<lfloor>v * 10 ^ 4 + 1 / 2\<rfloor> / 10 ^ 4"
    unfolding toFixed_digits_Fin[OF assms] *(1) fixed_value_I[OF *(4)] *(6) *(3) ..
qed

lemma toFixed_4_unit:
  assumes "0 \<le> v" "v \<le> 1"
  shows "is_fixed4 (toFixed_digits (Fin v) 4)"
    and "0 \<le> fixed_value (toFixed_digits (Fin v) 4)" "fixed_value (toFixed_digits (Fin v) 4) \<le> 1"
proof -
  have lt: "v < pow10 21" using assms(2) by (simp add: pow10_powi)
  note s = toFixed_4_shape[OF assms(1) lt]
  show "is_fixed4 (toFixed_digits (Fin v) 4)" by (rule s(1))
  let ?n = "\<lfloor>v * 10 ^ 4 + 1 / 2\<rfloor>"
  have "0 \<le> ?n" using assms(1) by simp
  then show "0 \<le> fixed_value (toFixed_digits (Fin v) 4)" unfolding s(2) by simp
  have "v * 10 ^ 4 + 1 / 2 < 10001" using assms(2) by simp
  then have "?n < 10001" by (simp add: floor_less_iff)
  then have "?n \<le> 10 ^ 4" by simp
  then have "(of_int ?n :: rat) \<le> of_int (10 ^ 4)" by (simp only: of_int_le_iff)
  then show "fixed_value (toFixed_digits (Fin v) 4) \<le> 1" unfolding s(2) by simp
qed

lemma mv_nonneg: "\<forall>c \<in> set ds. is_digit c \<Longrightarrow> 0 \<le> of_int (digits_value ds) * pow10 e"
  using digits_value_nonneg[of ds] pow10_pos[of e] by simp

lemma parseFloat_string_cases:
  "parseFloat_string s = NaN \<or> (\<exists>neg. parseFloat_string s = infinity neg) \<or>
   (\<exists>neg a. 0 \<le> a \<and> parseFloat_string s = round_to_double neg a)"
proof -
  let ?trimmed = "dropWhile is_space s"
  let ?neg = "take 1 ?trimmed = ''-''"
  let ?t = "if take 1 ?trimmed = ''-'' \<or> take 1 ?trimmed = ''+'' then drop 1 ?trimmed else ?trimmed"
  let ?ip = "takeWhile is_digit ?t"
  let ?r1 = "dropWhile is_digit ?t"
  let ?fp = "if take 1 ?r1 = ''.'' then takeWhile is_digit (drop 1 ?r1) else []"
  let ?r2 = "if take 1 ?r1 = ''.'' then dropWhile is_digit (drop 1 ?r1) else ?r1"
  let ?mv = "of_int (digits_value (?ip @ ?fp)) * pow10 (exponent_part ?r2 - int (length ?fp))"
  have eq: "parseFloat_string s =
              (if take 8 ?t = ''Infinity'' then infinity ?neg
               else if ?ip = [] \<and> ?fp = [] then NaN else round_to_double ?neg ?mv)"
    unfolding parseFloat_string_def Let_def ..
  have "\<forall>c \<in> set (?ip @ ?fp). is_digit c"
    by (auto dest: set_takeWhileD split: if_splits)
  then have mv: "0 \<le> ?mv" by (rule mv_nonneg)
  show ?thesis
  proof (cases "take 8 ?t = ''Infinity''")
    case True
    have "parseFloat_string s = infinity ?neg" unfolding eq by (rule if_P[OF True])
    then show ?thesis by blast
  next
    case False
    show ?thesis
    proof (cases "?ip = [] \<and> ?fp = []")
      case True
      have "parseFloat_string s = NaN"
        unfolding eq if_not_P[OF False] by (rule if_P[OF True])
      then show ?thesis by blast
    next
      case nn: False
      have "parseFloat_string s = round_to_double ?neg ?mv"
        unfolding eq if_not_P[OF False] by (rule if_not_P[OF nn])
      with mv show ?thesis by blast
    qed
  qed
qed

lemma parseFloat_string_is_double: "is_double (parseFloat_string s)"
  using parseFloat_string_cases[of s]
  by (auto simp: infinity_def round_to_double_is_double)

lemma parseFloat_is_double: "parseFloat p = Inr x \<Longrightarrow> is_double x"
  by (auto simp: parseFloat_def parseFloat_string_is_double split: sum.splits)

lemma parseFloat_string_decimal:
  assumes "is_decimal a"
  shows "\<not> negative (parseFloat_string a)"
proof -
  from assms obtain x xs where a: "a = x # xs" and x: "is_digit x \<or> x = CHR ''.''"
    by (cases a) (auto simp: is_decimal_def)
  from x have sp: "\<not> is_space x" using space_not_decimal by blast
  from x have sg: "x \<noteq> CHR ''-''" "x \<noteq> CHR ''+''" "x \<noteq> CHR ''I''"
    using dot_not_digit by auto
  have d: "dropWhile is_space a = a" unfolding a using sp by simp
  have t: "take 1 a \<noteq> ''-''" "take 1 a \<noteq> ''+''" "take 8 a \<noteq> ''Infinity''"
    unfolding a using sg by simp_all
  let ?ip = "takeWhile is_digit a"
  let ?r1 = "dropWhile is_digit a"
  let ?fp = "if take 1 ?r1 = ''.'' then takeWhile is_digit (drop 1 ?r1) else []"
  let ?r2 = "if take 1 ?r1 = ''.'' then dropWhile is_digit (drop 1 ?r1) else ?r1"
  let ?mv = "of_int (digits_value (?ip @ ?fp)) * pow10 (exponent_part ?r2 - int (length ?fp))"
  have "\<forall>c \<in> set (?ip @ ?fp). is_digit c"
    by (auto dest: set_takeWhileD split: if_splits)
  then have "0 \<le> ?mv" by (rule mv_nonneg)
  then have r: "\<not> negative (round_to_double False ?mv)"
    by (simp only: round_to_double_negative simp_thms)
  show ?thesis
  proof (cases "?ip = [] \<and> ?fp = []")
    case True
    have "parseFloat_string a = NaN"
      unfolding parseFloat_string_def Let_def d using t True by (auto split: if_splits)
    then show ?thesis by simp
  next
    case False
    have "parseFloat_string a = round_to_double False ?mv"
      unfolding parseFloat_string_def Let_def d using t False by (auto split: if_splits)
    with r show ?thesis by simp
  qed
qed

lemma split_on_nosep: "d \<notin> set w \<Longrightarrow> split_on d w = [w]"
  by (induction w) auto

lemma split_on_append: "d \<notin> set w \<Longrightarrow> split_on d (w @ d # r) = w # split_on d r"
  by (induction w) auto

lemma is_fixed4_D:
  assumes "is_fixed4 s"
  shows "\<exists>ip fp. s = ip @ ''.'' @ fp \<and> (\<forall>c \<in> set (ip @ fp). is_digit c)"
proof -
  let ?ip = "takeWhile is_digit s"
  let ?r = "dropWhile is_digit s"
  from assms have r: "take 1 ?r = ''.''" and f: "list_all is_digit (drop 1 ?r)"
    unfolding is_fixed4_def Let_def by auto
  from r obtain r' where r': "?r = CHR ''.'' # r'" by (cases ?r) auto
  have "s = ?ip @ ?r" by simp
  then have "s = ?ip @ ''.'' @ r'" unfolding r' by simp
  moreover have "\<forall>c \<in> set (?ip @ r'). is_digit c"
    using f unfolding r' by (auto simp: list_all_iff dest: set_takeWhileD)
  ultimately show ?thesis by blast
qed

lemma is_fixed4_no_space:
  assumes "is_fixed4 s"
  shows "CHR '' '' \<notin> set s"
proof
  assume sp: "CHR '' '' \<in> set s"
  from is_fixed4_D[OF assms] obtain ip fp where
    s: "s = ip @ ''.'' @ fp" and d: "\<forall>c \<in> set (ip @ fp). is_digit c" by blast
  from sp have "CHR '' '' \<in> set (ip @ fp)" unfolding s by auto
  with d have "is_digit CHR '' ''" by blast
  then show False by (simp add: dot_not_digit)
qed

lemma drop_length_append: "drop (length xs) (xs @ ys) = ys"
  by simp

lemma output_shape_I:
  assumes "is_fixed4 l" "is_fixed4 c" "is_fixed4 h"
  shows "output_shape (''oklch('' @ l @ '' '' @ c @ '' '' @ h @ '')'')"
proof -
  let ?body = "l @ CHR '' '' # c @ CHR '' '' # h"
  let ?s = "''oklch('' @ l @ '' '' @ c @ '' '' @ h @ '')''"
  have s: "?s = ''oklch('' @ ?body @ '')''" by simp
  have 1: "take 6 ?s = ''oklch(''" by simp
  have "length ?s - 1 = length (''oklch('' @ ?body)" by simp
  moreover have "drop (length (''oklch('' @ ?body)) ((''oklch('' @ ?body) @ '')'') = '')''"
    by (rule drop_length_append)
  ultimately have 2: "drop (length ?s - 1) ?s = '')''"
    by simp
  have "drop 6 ?s = ?body @ '')''" by simp
  moreover have "length ?s - 7 = length ?body" by simp
  ultimately have 3: "take (length ?s - 7) (drop 6 ?s) = ?body" by simp
  have 4: "split_on CHR '' '' ?body = [l, c, h]"
    using assms by (simp add: split_on_append split_on_nosep is_fixed4_no_space)
  show ?thesis
    unfolding output_shape_def Let_def 3 4 using 1 2 assms by simp
qed

section \<open>Properties of the function\<close>

lemma toFixed_4_mono:
  assumes "0 \<le> v" "v \<le> w" "w < pow10 21"
  shows "fixed_value (toFixed_digits (Fin v) 4) \<le> fixed_value (toFixed_digits (Fin w) 4)"
proof -
  have w: "0 \<le> w" and v: "v < pow10 21" using assms by simp_all
  have "\<lfloor>v * 10 ^ 4 + 1 / 2\<rfloor> \<le> \<lfloor>w * 10 ^ 4 + 1 / 2\<rfloor>"
    using assms(2) by (intro floor_mono) simp
  then have "(of_int \<lfloor>v * 10 ^ 4 + 1 / 2\<rfloor> :: rat) \<le> of_int \<lfloor>w * 10 ^ 4 + 1 / 2\<rfloor>"
    by (simp only: of_int_le_iff)
  then show ?thesis
    unfolding toFixed_4_shape(2)[OF assms(1) v] toFixed_4_shape(2)[OF w assms(3)]
    by (intro divide_right_mono) simp_all
qed

lemma toFixed_4_strict:
  assumes "0 \<le> v" "v + 1 / 10 ^ 4 \<le> w" "w < pow10 21"
  shows "fixed_value (toFixed_digits (Fin v) 4) < fixed_value (toFixed_digits (Fin w) 4)"
proof -
  have w: "0 \<le> w" and v: "v < pow10 21" using assms by simp_all
  have "(v + 1 / 10 ^ 4) * 10 ^ 4 \<le> w * 10 ^ 4"
    using assms(2) by (intro mult_right_mono) simp_all
  then have "v * 10 ^ 4 + 1 / 2 + 1 \<le> w * 10 ^ 4 + 1 / 2" by (simp add: distrib_right)
  then have "\<lfloor>v * 10 ^ 4 + 1 / 2 + 1\<rfloor> \<le> \<lfloor>w * 10 ^ 4 + 1 / 2\<rfloor>" by (rule floor_mono)
  moreover have "\<lfloor>v * 10 ^ 4 + 1 / 2\<rfloor> + 1 = \<lfloor>v * 10 ^ 4 + 1 / 2 + 1\<rfloor>"
    using floor_add_int[of "v * 10 ^ 4 + 1 / 2" 1] unfolding of_int_1 .
  ultimately have "\<lfloor>v * 10 ^ 4 + 1 / 2\<rfloor> < \<lfloor>w * 10 ^ 4 + 1 / 2\<rfloor>" by linarith
  then have "(of_int \<lfloor>v * 10 ^ 4 + 1 / 2\<rfloor> :: rat) < of_int \<lfloor>w * 10 ^ 4 + 1 / 2\<rfloor>"
    by (simp only: of_int_less_iff)
  then show ?thesis
    unfolding toFixed_4_shape(2)[OF assms(1) v] toFixed_4_shape(2)[OF w assms(3)]
    by (intro divide_strict_right_mono) simp_all
qed

lemma num_le_Fin: "num_le (Fin v) (Fin w) \<longleftrightarrow> v \<le> w"
  by (auto simp: num_le_def)

lemma normal_bound: "num_le (Fin (pow2 (- 1022))) (Fin l) \<Longrightarrow> 2 powi (- 1022) \<le> l"
  unfolding num_le_Fin pow2_powi .

lemma capture_number:
  assumes "is_decimal a"
  shows "parseFloat_string a = NaN \<or> parseFloat_string a = PosInf \<or>
         (\<exists>v. parseFloat_string a = Fin v \<and> 0 \<le> v \<and> representable v)"
  using parseFloat_string_decimal[OF assms] parseFloat_string_is_double[of a]
  by (cases "parseFloat_string a") auto

lemma match_decimals:
  assumes "regex_match oklchRegex s = Some [m, a, b, c]"
  shows "is_decimal a" "is_decimal b" "is_decimal c"
  using regex_match_oklch_SomeD[OF assms] by (auto simp: oklch_form_def)

lemma pow10_21: "pow10 21 = 10 ^ 21"
  by (simp add: pow10_powi)

section \<open>The claims\<close>

subsection \<open>The computed string\<close>



subsection \<open>The clamp\<close>

text \<open>
  Claim C2, as amended. When the parsed lightness is finite and the percentage is converted to a
  Number other than NaN, and it is not the case that the lightness is zero while the percentage
  is infinite, the lightness component of the output is digits, a point and four digits, and
  denotes a number from 0 to 1.
\<close>

theorem lightness_within_unit_interval:
  assumes "regex_match oklchRegex (trim (getPropertyValue cssVariableName)) = Some [m, a, b, c]"
    and "is_finite (parseFloat_string a)"
    and "parseFloat percentageModification = Inr pct"
    and "pct \<noteq> NaN"
    and "is_zero (parseFloat_string a) \<longrightarrow> is_finite pct"
  shows "\<exists>l. fst (adjustOklchLightness getPropertyValue cssVariableName percentageModification) =
               Inr (Some (''oklch('' @ l @ '' '' @ toFixed_digits (parseFloat_string b) 4 @ '' '' @
                          toFixed_digits (parseFloat_string c) 4 @ '')'')) \<and>
             is_fixed4 l \<and> 0 \<le> fixed_value l \<and> fixed_value l \<le> 1"
proof -
  from clamped_lightness_range[OF assms(2,4) parseFloat_is_double[OF assms(3)] assms(5)]
  obtain v where v: "clamped_lightness (parseFloat_string a) pct = Fin v"
    "0 \<le> v" "v \<le> 1" by blast
  from toFixed_4_unit[OF v(2,3)] show ?thesis
    by (simp add: adjust_match[where g = getPropertyValue and n = cssVariableName, OF assms(1,3)] v(1))
qed

theorem lightness_within_unit_interval_witness:
  "regex_match oklchRegex (trim ''oklch(0.9 0.2 10)'') =
      Some [''oklch(0.9 0.2 10)'', ''0.9'', ''0.2'', ''10''] \<and>
   is_finite (parseFloat_string ''0.9'') \<and> parseFloat (JNumber (Fin 1000)) = Inr (Fin 1000) \<and>
   Fin 1000 \<noteq> NaN \<and> is_finite (Fin 1000) \<and>
   (\<exists>l. fst (adjustOklchLightness (\<lambda>name. ''oklch(0.9 0.2 10)'') ''--primary-color'' (JNumber (Fin 1000))) =
               Inr (Some (''oklch('' @ l @ '' '' @ toFixed_digits (parseFloat_string ''0.2'') 4 @ '' '' @
                          toFixed_digits (parseFloat_string ''10'') 4 @ '')'')) \<and>
        is_fixed4 l \<and> 0 \<le> fixed_value l \<and> fixed_value l \<le> 1)"
proof -
  have 1: "regex_match oklchRegex (trim ((\<lambda>name. ''oklch(0.9 0.2 10)'') ''--primary-color'')) =
      Some [''oklch(0.9 0.2 10)'', ''0.9'', ''0.2'', ''10'']"
    by code_simp
  have 2: "is_finite (parseFloat_string ''0.9'')" by code_simp
  have 3: "parseFloat (JNumber (Fin 1000)) = Inr (Fin 1000)" by code_simp
  have 4: "Fin 1000 \<noteq> NaN" by simp
  have 5: "is_zero (parseFloat_string ''0.9'') \<longrightarrow> is_finite (Fin 1000)" by simp
  from lightness_within_unit_interval[where getPropertyValue = "\<lambda>name. ''oklch(0.9 0.2 10)''"
      and cssVariableName = "''--primary-color''" and percentageModification = "JNumber (Fin 1000)",
      OF 1 2 3 4 5] 1 2 3
  show ?thesis by simp
qed

text \<open>
  Claim C2 as it was stated fails for the percentage \<^verbatim>\<open>Infinity\<close>, a Number that is not NaN, and
  the lightness 0: \<open>0 * Infinity\<close> is NaN, which \<^verbatim>\<open>Math.min\<close> and \<^verbatim>\<open>Math.max\<close> pass on.
\<close>

theorem infinite_percentage_counterexample:
  "regex_match oklchRegex (trim ''oklch(0 0.1 30)'') =
      Some [''oklch(0 0.1 30)'', ''0'', ''0.1'', ''30''] \<and>
   parseFloat_string ''0'' = Fin 0 \<and> parseFloat (JNumber PosInf) = Inr PosInf \<and>
   fst (adjustOklchLightness (\<lambda>name. ''oklch(0 0.1 30)'') ''--primary-color'' (JNumber PosInf))
     = Inr (Some ''oklch(NaN 0.1000 30.0000)'')"
  by code_simp

subsection \<open>Failure and success of the match\<close>

text \<open>
  Claim C3, as amended. The function returns \<^verbatim>\<open>null\<close> exactly when the trimmed property value
  contains no substring of the form \<^verbatim>\<open>oklch(a b c)\<close>. The pattern is not anchored, so text
  before or after such a substring does not make the function fail.
\<close>

theorem null_iff_no_oklch_substring:
  "fst (adjustOklchLightness getPropertyValue cssVariableName percentageModification) = Inr None
   \<longleftrightarrow> \<not> (\<exists>pre m post a b c.
           trim (getPropertyValue cssVariableName) = pre @ m @ post \<and> oklch_form m a b c)"
proof (cases "regex_match oklchRegex (trim (getPropertyValue cssVariableName))")
  case None
  then show ?thesis
    using regex_match_oklch_None_iff[of "trim (getPropertyValue cssVariableName)"]
    by (simp add: adjust_no_match)
next
  case (Some arr)
  from regex_match_oklch_SomeD[OF this] obtain pre m post a b c where
    *: "trim (getPropertyValue cssVariableName) = pre @ m @ post" "arr = [m, a, b, c]"
       "oklch_form m a b c" by blast
  have "fst (adjustOklchLightness getPropertyValue cssVariableName percentageModification)
          \<noteq> Inr None"
  proof (cases "parseFloat percentageModification")
    case (Inl e)
    from adjust_throws[where g = getPropertyValue and n = cssVariableName, OF Some Inl]
    show ?thesis by simp
  next
    case (Inr pct)
    from adjust_match[where g = getPropertyValue and n = cssVariableName, OF Some[unfolded *(2)] Inr]
    show ?thesis by simp
  qed
  with * show ?thesis by blast
qed

theorem null_iff_no_oklch_substring_witness:
  "fst (adjustOklchLightness (\<lambda>name. ''rgb(255,0,0)'') ''--primary-color'' (JString ''10'')) = Inr None \<and>
   \<not> (\<exists>pre m post a b c. trim ''rgb(255,0,0)'' = pre @ m @ post \<and> oklch_form m a b c)"
proof -
  have 1: "fst (adjustOklchLightness (\<lambda>name. ''rgb(255,0,0)'') ''--primary-color'' (JString ''10''))
             = Inr None"
    by code_simp
  with null_iff_no_oklch_substring[where getPropertyValue = "\<lambda>name. ''rgb(255,0,0)''"
      and cssVariableName = "''--primary-color''" and percentageModification = "JString ''10''"]
  show ?thesis by simp
qed

text \<open>
  Claim C3 as it was stated fails: the text \<^verbatim>\<open>not-oklch(0.5 0.1 30)\<close> does not begin with
  \<^verbatim>\<open>oklch(\<close>, so it is not of the form \<^verbatim>\<open>oklch(a b c)\<close>, and the function returns a string for it.
\<close>

theorem unanchored_pattern_counterexample:
  "take 6 (trim ''not-oklch(0.5 0.1 30)'') \<noteq> ''oklch('' \<and>
   fst (adjustOklchLightness (\<lambda>name. ''not-oklch(0.5 0.1 30)'') ''--primary-color'' (JString ''10''))
     = Inr (Some ''oklch(0.4500 0.1000 30.0000)'')"
  by code_simp

subsection \<open>Darker and lighter\<close>

text \<open>
  Claim C4, as amended. Let \<open>L\<close> be a parsed lightness above 0 and at most 1, \<open>p\<close> the Number the
  percentage is converted to, and \<open>L'\<close> the lightness after the clamp, which is printed with four
  decimals.

  For a positive \<open>p\<close>, \<open>L'\<close> is at least 0 and at most \<open>L\<close>, and it is strictly smaller than \<open>L\<close>
  whenever the product \<open>L * (p / 100)\<close>, as computed, is above \<open>L / 2\<^sup>5\<^sup>3\<close>: only a product that is
  lost in the rounding of the subtraction leaves \<open>L\<close> as it is. This is the case whenever \<open>L\<close> is
  at least \<open>2\<^sup>-\<^sup>1\<^sup>0\<^sup>2\<^sup>2\<close> and \<open>p\<close> at least \<open>10\<^sup>-\<^sup>1\<^sup>3\<close>. The number printed is at most the one printed for
  \<open>L\<close>, and strictly smaller when \<open>L'\<close> is smaller than \<open>L\<close> by 0.0001 or more.

  For a negative \<open>p\<close>, \<open>L'\<close> is at least \<open>L\<close> and at most 1, and it is strictly larger than \<open>L\<close>, or
  clamped to 1, whenever the product is below \<open>- L / 2\<^sup>5\<^sup>3\<close>, which is the case whenever \<open>L\<close> is at
  least \<open>2\<^sup>-\<^sup>1\<^sup>0\<^sup>2\<^sup>2\<close> and \<open>p\<close> at most \<open>- 10\<^sup>-\<^sup>1\<^sup>3\<close>. The number printed is at least the one printed
  for \<open>L\<close>, and strictly larger when \<open>L'\<close> is larger than \<open>L\<close> by 0.0001 or more.
\<close>

theorem sign_convention:
  assumes "regex_match oklchRegex (trim (getPropertyValue cssVariableName)) = Some [m, a, b, c]"
    and "parseFloat percentageModification = Inr p"
    and "num_less (Fin 0) (parseFloat_string a)" and "num_le (parseFloat_string a) (Fin 1)"
  shows
    "(let L = parseFloat_string a;
          product = num_mul L (num_div p (Fin 100));
          L' = clamped_lightness L p
      in fst (adjustOklchLightness getPropertyValue cssVariableName percentageModification) =
           Inr (Some (''oklch('' @ toFixed_digits L' 4 @ '' '' @
                      toFixed_digits (parseFloat_string b) 4 @ '' '' @
                      toFixed_digits (parseFloat_string c) 4 @ '')'')) \<and>
         (num_less (Fin 0) p \<longrightarrow>
            num_le (Fin 0) L' \<and> num_le L' L \<and>
            (num_less (Fin (real_value L / 2 ^ 53)) product \<longrightarrow> num_less L' L) \<and>
            (num_le (Fin (pow2 (- 1022))) L \<and> num_le (Fin (1 / 10 ^ 13)) p \<longrightarrow> num_less L' L) \<and>
            fixed_value (toFixed_digits L' 4) \<le> fixed_value (toFixed_digits L 4) \<and>
            (real_value L' + 1 / 10 ^ 4 \<le> real_value L \<longrightarrow>
               fixed_value (toFixed_digits L' 4) < fixed_value (toFixed_digits L 4))) \<and>
         (num_less p (Fin 0) \<longrightarrow>
            num_le L L' \<and> num_le L' (Fin 1) \<and>
            (num_less product (Fin (- (real_value L / 2 ^ 53))) \<longrightarrow> num_less L L' \<or> L' = Fin 1) \<and>
            (num_le (Fin (pow2 (- 1022))) L \<and> num_le p (Fin (- (1 / 10 ^ 13))) \<longrightarrow>
               num_less L L' \<or> L' = Fin 1) \<and>
            fixed_value (toFixed_digits L 4) \<le> fixed_value (toFixed_digits L' 4) \<and>
            (real_value L + 1 / 10 ^ 4 \<le> real_value L' \<longrightarrow>
               fixed_value (toFixed_digits L 4) < fixed_value (toFixed_digits L' 4))))"
proof -
  let ?L = "parseFloat_string a"
  from capture_number[OF match_decimals(1)[OF assms(1)]] assms(3,4)
  obtain l where l: "?L = Fin l" "0 < l" "l \<le> 1" "representable l"
    by (auto simp: num_le_def)
  let ?product = "num_mul (Fin l) (num_div p (Fin 100))"
  let ?L' = "clamped_lightness (Fin l) p"
  have l21: "l < pow10 21" using l(3) by (simp add: pow10_21)
  have dbl: "is_double p" by (rule parseFloat_is_double[OF assms(2)])
  have range: "\<exists>v. ?L' = Fin v \<and> 0 \<le> v \<and> v \<le> 1" if "p \<noteq> NaN"
    using clamped_lightness_range[OF _ that dbl, of "Fin l"] l(2) by simp
  have result: "fst (adjustOklchLightness getPropertyValue cssVariableName percentageModification) =
           Inr (Some (''oklch('' @ toFixed_digits ?L' 4 @ '' '' @
                      toFixed_digits (parseFloat_string b) 4 @ '' '' @
                      toFixed_digits (parseFloat_string c) 4 @ '')''))"
    by (simp add: adjust_match[where g = getPropertyValue and n = cssVariableName, OF assms(1,2)] l(1))
  have pos: "num_le (Fin 0) ?L' \<and> num_le ?L' (Fin l) \<and>
             (num_less (Fin (l / 2 ^ 53)) ?product \<longrightarrow> num_less ?L' (Fin l)) \<and>
             (num_le (Fin (pow2 (- 1022))) (Fin l) \<and> num_le (Fin (1 / 10 ^ 13)) p \<longrightarrow>
                num_less ?L' (Fin l)) \<and>
             fixed_value (toFixed_digits ?L' 4) \<le> fixed_value (toFixed_digits (Fin l) 4) \<and>
             (real_value ?L' + 1 / 10 ^ 4 \<le> l \<longrightarrow>
                fixed_value (toFixed_digits ?L' 4) < fixed_value (toFixed_digits (Fin l) 4))"
    if "num_less (Fin 0) p"
  proof -
    from clamped_lightness_darker[OF l(4,2) that]
    have le: "num_le ?L' (Fin l)" .
    from that have "p \<noteq> NaN" by (cases p) simp_all
    from range[OF this] obtain v where v: "?L' = Fin v" "0 \<le> v" "v \<le> 1" by auto
    from le have vl: "v \<le> l" unfolding v by (simp add: num_le_Fin)
    have s1: "num_less ?L' (Fin l)" if "num_less (Fin (l / 2 ^ 53)) ?product"
      by (rule clamped_lightness_strictly_darker[OF l(4,2) that])
    have s2: "num_less ?L' (Fin l)"
      if "num_le (Fin (pow2 (- 1022))) (Fin l) \<and> num_le (Fin (1 / 10 ^ 13)) p"
    proof -
      from that have "2 powi (- 1022) \<le> l" by (intro normal_bound) (rule conjunct1)
      from product_not_lost_pos[OF this] that show ?thesis by (intro s1) simp
    qed
    have s3: "fixed_value (toFixed_digits (Fin v) 4) < fixed_value (toFixed_digits (Fin l) 4)"
      if "v + 1 / 10 ^ 4 \<le> l"
      by (rule toFixed_4_strict[OF v(2) that l21])
    from toFixed_4_mono[OF v(2) vl l21] le s1 s2 s3 v(2) show ?thesis
      unfolding v by (simp add: num_le_Fin)
  qed
  have neg: "num_le (Fin l) ?L' \<and> num_le ?L' (Fin 1) \<and>
             (num_less ?product (Fin (- (l / 2 ^ 53))) \<longrightarrow> num_less (Fin l) ?L' \<or> ?L' = Fin 1) \<and>
             (num_le (Fin (pow2 (- 1022))) (Fin l) \<and> num_le p (Fin (- (1 / 10 ^ 13))) \<longrightarrow>
                num_less (Fin l) ?L' \<or> ?L' = Fin 1) \<and>
             fixed_value (toFixed_digits (Fin l) 4) \<le> fixed_value (toFixed_digits ?L' 4) \<and>
             (l + 1 / 10 ^ 4 \<le> real_value ?L' \<longrightarrow>
                fixed_value (toFixed_digits (Fin l) 4) < fixed_value (toFixed_digits ?L' 4))"
    if "num_less p (Fin 0)"
  proof -
    from clamped_lightness_lighter[OF l(4,2,3) that]
    have le: "num_le (Fin l) ?L'" .
    from that have "p \<noteq> NaN" by (cases p) simp_all
    from range[OF this] obtain v where v: "?L' = Fin v" "0 \<le> v" "v \<le> 1" by auto
    from le have lv: "l \<le> v" unfolding v by (simp add: num_le_Fin)
    have v21: "v < pow10 21" using v(3) by (simp add: pow10_21)
    have l0: "0 \<le> l" using l(2) by simp
    have s1: "num_less (Fin l) ?L' \<or> ?L' = Fin 1" if "num_less ?product (Fin (- (l / 2 ^ 53)))"
      by (rule clamped_lightness_strictly_lighter[OF l(2) that])
    have s2: "num_less (Fin l) ?L' \<or> ?L' = Fin 1"
      if "num_le (Fin (pow2 (- 1022))) (Fin l) \<and> num_le p (Fin (- (1 / 10 ^ 13)))"
    proof -
      from that have "2 powi (- 1022) \<le> l" by (intro normal_bound) (rule conjunct1)
      from product_not_lost_neg[OF this] that show ?thesis by (intro s1) simp
    qed
    have s3: "fixed_value (toFixed_digits (Fin l) 4) < fixed_value (toFixed_digits (Fin v) 4)"
      if "l + 1 / 10 ^ 4 \<le> v"
      by (rule toFixed_4_strict[OF l0 that v21])
    from toFixed_4_mono[OF l0 lv v21] le s1 s2 s3 v(3) show ?thesis
      unfolding v by (simp add: num_le_Fin)
  qed
  from result pos neg show ?thesis
    unfolding Let_def l(1) real_value.simps by blast
qed

theorem sign_convention_witness:
  "regex_match oklchRegex (trim ''oklch(0.7 0.15 250)'') =
      Some [''oklch(0.7 0.15 250)'', ''0.7'', ''0.15'', ''250''] \<and>
   parseFloat (JString ''10'') = Inr (Fin 10) \<and>
   num_less (Fin 0) (parseFloat_string ''0.7'') \<and> num_le (parseFloat_string ''0.7'') (Fin 1) \<and>
   num_less (Fin 0) (Fin 10) \<and>
   num_less (Fin (real_value (parseFloat_string ''0.7'') / 2 ^ 53))
     (num_mul (parseFloat_string ''0.7'') (num_div (Fin 10) (Fin 100))) \<and>
   fst (adjustOklchLightness (\<lambda>name. ''oklch(0.7 0.15 250)'') ''--primary-color'' (JString ''10'')) =
     Inr (Some (''oklch('' @
       toFixed_digits (clamped_lightness (parseFloat_string ''0.7'') (Fin 10)) 4 @ '' '' @
       toFixed_digits (parseFloat_string ''0.15'') 4 @ '' '' @
       toFixed_digits (parseFloat_string ''250'') 4 @ '')'')) \<and>
   num_le (Fin 0) (clamped_lightness (parseFloat_string ''0.7'') (Fin 10)) \<and>
   num_less (clamped_lightness (parseFloat_string ''0.7'') (Fin 10)) (parseFloat_string ''0.7'') \<and>
   regex_match oklchRegex (trim ''oklch(0.5 0.1 30)'') =
      Some [''oklch(0.5 0.1 30)'', ''0.5'', ''0.1'', ''30''] \<and>
   parseFloat (JNumber (Fin (- 20))) = Inr (Fin (- 20)) \<and>
   num_less (Fin 0) (parseFloat_string ''0.5'') \<and> num_le (parseFloat_string ''0.5'') (Fin 1) \<and>
   num_less (Fin (- 20)) (Fin 0) \<and>
   num_le (Fin (pow2 (- 1022))) (parseFloat_string ''0.5'') \<and>
   num_le (Fin (- 20)) (Fin (- (1 / 10 ^ 13))) \<and>
   clamped_lightness (parseFloat_string ''0.5'') (Fin (- 20)) \<noteq> Fin 1 \<and>
   num_less (parseFloat_string ''0.5'') (clamped_lightness (parseFloat_string ''0.5'') (Fin (- 20)))"
proof -
  have 1: "regex_match oklchRegex (trim ((\<lambda>name. ''oklch(0.7 0.15 250)'') ''--primary-color'')) =
      Some [''oklch(0.7 0.15 250)'', ''0.7'', ''0.15'', ''250'']"
    by code_simp
  have 2: "parseFloat (JString ''10'') = Inr (Fin 10)" by code_simp
  have 3: "num_less (Fin 0) (parseFloat_string ''0.7'')" by code_simp
  have 4: "num_le (parseFloat_string ''0.7'') (Fin 1)" by code_simp
  have 5: "num_less (Fin 0) (Fin 10)" by simp
  have 6: "num_less (Fin (real_value (parseFloat_string ''0.7'') / 2 ^ 53))
     (num_mul (parseFloat_string ''0.7'') (num_div (Fin 10) (Fin 100)))"
    by code_simp
  from sign_convention[where getPropertyValue = "\<lambda>name. ''oklch(0.7 0.15 250)''"
      and cssVariableName = "''--primary-color''" and percentageModification = "JString ''10''",
      OF 1 2 3 4] 5 6
  have darker:
    "fst (adjustOklchLightness (\<lambda>name. ''oklch(0.7 0.15 250)'') ''--primary-color'' (JString ''10'')) =
     Inr (Some (''oklch('' @
       toFixed_digits (clamped_lightness (parseFloat_string ''0.7'') (Fin 10)) 4 @ '' '' @
       toFixed_digits (parseFloat_string ''0.15'') 4 @ '' '' @
       toFixed_digits (parseFloat_string ''250'') 4 @ '')'')) \<and>
   num_le (Fin 0) (clamped_lightness (parseFloat_string ''0.7'') (Fin 10)) \<and>
   num_less (clamped_lightness (parseFloat_string ''0.7'') (Fin 10)) (parseFloat_string ''0.7'')"
    unfolding Let_def by blast
  have 7: "regex_match oklchRegex (trim ((\<lambda>name. ''oklch(0.5 0.1 30)'') ''--primary-color'')) =
      Some [''oklch(0.5 0.1 30)'', ''0.5'', ''0.1'', ''30'']"
    by code_simp
  have 8: "parseFloat (JNumber (Fin (- 20))) = Inr (Fin (- 20))" by code_simp
  have 9: "num_less (Fin 0) (parseFloat_string ''0.5'')" by code_simp
  have 10: "num_le (parseFloat_string ''0.5'') (Fin 1)" by code_simp
  have 11: "num_less (Fin (- 20)) (Fin 0)" by simp
  have 12: "num_le (Fin (pow2 (- 1022))) (parseFloat_string ''0.5'')" by code_simp
  have 13: "num_le (Fin (- 20)) (Fin (- (1 / 10 ^ 13)))" by (simp add: num_le_def)
  have 14: "clamped_lightness (parseFloat_string ''0.5'') (Fin (- 20)) \<noteq> Fin 1" by code_simp
  from sign_convention[where getPropertyValue = "\<lambda>name. ''oklch(0.5 0.1 30)''"
      and cssVariableName = "''--primary-color''" and percentageModification = "JNumber (Fin (- 20))",
      OF 7 8 9 10] 11 12 13 14
  have lighter:
    "num_less (parseFloat_string ''0.5'') (clamped_lightness (parseFloat_string ''0.5'') (Fin (- 20)))"
    unfolding Let_def by blast
  from 1 2 3 4 5 6 darker 7 8 9 10 11 12 13 14 lighter show ?thesis by simp
qed

text \<open>
  Claim C4 as it was stated fails: for the lightness 0.5 and the positive percentage
  \<^verbatim>\<open>1e-20\<close> the product \<open>L * frac\<close> is below half the spacing of the binary64 values at 0.5,
  so the subtraction returns 0.5 again. The lightness is neither smaller nor clamped at 0.
\<close>

theorem tiny_percentage_counterexample:
  "num_less (Fin 0) (parseFloat_string ''0.5'') \<and> num_le (parseFloat_string ''0.5'') (Fin 1) \<and>
   parseFloat (JString ''1e-20'') = Inr (parseFloat_string ''1e-20'') \<and>
   num_less (Fin 0) (parseFloat_string ''1e-20'') \<and>
   clamped_lightness (parseFloat_string ''0.5'') (parseFloat_string ''1e-20'') = parseFloat_string ''0.5'' \<and>
   toFixed_digits (parseFloat_string ''0.5'') 4 = ''0.5000'' \<and>
   fst (adjustOklchLightness (\<lambda>name. ''oklch(0.5 0.1 30)'') ''--primary-color'' (JString ''1e-20''))
     = Inr (Some ''oklch(0.5000 0.1000 30.0000)'')"
  by code_simp

subsection \<open>The percentage zero, chroma and hue\<close>

text \<open>
  Claim C5, as amended. When the percentage is converted to zero and the parsed lightness is
  not above 1, the lightness component of the output is \<^verbatim>\<open>toFixed(4)\<close> of the parsed lightness.
  For every percentage that is converted to a Number, the chroma and hue components are
  \<^verbatim>\<open>toFixed(4)\<close> of the parsed chroma and hue.
\<close>

theorem zero_percentage_identity:
  assumes "regex_match oklchRegex (trim (getPropertyValue cssVariableName)) = Some [m, a, b, c]"
    and "parseFloat percentageModification = Inr pct"
  shows "(is_zero pct \<and> \<not> num_less (Fin 1) (parseFloat_string a) \<longrightarrow>
            fst (adjustOklchLightness getPropertyValue cssVariableName percentageModification) =
              Inr (Some (''oklch('' @ toFixed_digits (parseFloat_string a) 4 @ '' '' @
                         toFixed_digits (parseFloat_string b) 4 @ '' '' @
                         toFixed_digits (parseFloat_string c) 4 @ '')''))) \<and>
         (\<exists>l. fst (adjustOklchLightness getPropertyValue cssVariableName percentageModification) =
              Inr (Some (''oklch('' @ l @ '' '' @
                         toFixed_digits (parseFloat_string b) 4 @ '' '' @
                         toFixed_digits (parseFloat_string c) 4 @ '')'')))"
proof (intro conjI impI)
  show "\<exists>l. fst (adjustOklchLightness getPropertyValue cssVariableName percentageModification) =
              Inr (Some (''oklch('' @ l @ '' '' @
                         toFixed_digits (parseFloat_string b) 4 @ '' '' @
                         toFixed_digits (parseFloat_string c) 4 @ '')''))"
    by (simp add: adjust_match[where g = getPropertyValue and n = cssVariableName, OF assms])
next
  assume h: "is_zero pct \<and> \<not> num_less (Fin 1) (parseFloat_string a)"
  from capture_number[OF match_decimals(1)[OF assms(1)]]
  have "clamped_lightness (parseFloat_string a) pct = parseFloat_string a"
  proof (elim disjE exE conjE)
    assume "parseFloat_string a = NaN"
    then show ?thesis
      by (simp add: clamped_lightness_def num_mul_def num_sub_def math_min_def math_max_def)
  next
    assume "parseFloat_string a = PosInf"
    with h show ?thesis by simp
  next
    fix v assume v: "parseFloat_string a = Fin v" "0 \<le> v" "representable v"
    with h have "v \<le> 1" by simp
    with v h show ?thesis by (simp add: clamped_lightness_zero)
  qed
  then show "fst (adjustOklchLightness getPropertyValue cssVariableName percentageModification) =
              Inr (Some (''oklch('' @ toFixed_digits (parseFloat_string a) 4 @ '' '' @
                         toFixed_digits (parseFloat_string b) 4 @ '' '' @
                         toFixed_digits (parseFloat_string c) 4 @ '')''))"
    by (simp add: adjust_match[where g = getPropertyValue and n = cssVariableName, OF assms])
qed

theorem zero_percentage_identity_witness:
  "regex_match oklchRegex (trim ''oklch(0.7 0.15 250)'') =
      Some [''oklch(0.7 0.15 250)'', ''0.7'', ''0.15'', ''250''] \<and>
   parseFloat (JNumber (Fin 0)) = Inr (Fin 0) \<and>
   is_zero (Fin 0) \<and> \<not> num_less (Fin 1) (parseFloat_string ''0.7'') \<and>
   fst (adjustOklchLightness (\<lambda>name. ''oklch(0.7 0.15 250)'') ''--primary-color'' (JNumber (Fin 0))) =
     Inr (Some (''oklch('' @ toFixed_digits (parseFloat_string ''0.7'') 4 @ '' '' @
                toFixed_digits (parseFloat_string ''0.15'') 4 @ '' '' @
                toFixed_digits (parseFloat_string ''250'') 4 @ '')''))"
proof -
  have 1: "regex_match oklchRegex (trim ((\<lambda>name. ''oklch(0.7 0.15 250)'') ''--primary-color'')) =
      Some [''oklch(0.7 0.15 250)'', ''0.7'', ''0.15'', ''250'']"
    by code_simp
  have 2: "parseFloat (JNumber (Fin 0)) = Inr (Fin 0)" by code_simp
  have 3: "\<not> num_less (Fin 1) (parseFloat_string ''0.7'')" by code_simp
  from zero_percentage_identity[where getPropertyValue = "\<lambda>name. ''oklch(0.7 0.15 250)''"
      and cssVariableName = "''--primary-color''" and percentageModification = "JNumber (Fin 0)", OF 1 2]
    1 2 3
  show ?thesis by simp
qed

text \<open>
  Claim C5 as it was stated fails for a parsed lightness above 1: \<^verbatim>\<open>oklch(2 0.1 30)\<close> is parsed,
  and with the percentage 0 the lightness is printed as \<^verbatim>\<open>1.0000\<close>, not \<^verbatim>\<open>2.0000\<close>.
\<close>

theorem zero_percentage_clamps_counterexample:
  "regex_match oklchRegex (trim ''oklch(2 0.1 30)'') =
      Some [''oklch(2 0.1 30)'', ''2'', ''0.1'', ''30''] \<and>
   parseFloat (JNumber (Fin 0)) = Inr (Fin 0) \<and>
   toFixed_digits (parseFloat_string ''2'') 4 = ''2.0000'' \<and>
   fst (adjustOklchLightness (\<lambda>name. ''oklch(2 0.1 30)'') ''--primary-color'' (JNumber (Fin 0)))
     = Inr (Some ''oklch(1.0000 0.1000 30.0000)'')"
  by code_simp

subsection \<open>The shape of the returned string\<close>

text \<open>
  Claim C6, as amended. When the function returns a string, the clamped lightness is not NaN,
  and the parsed chroma and hue are below \<open>10\<^sup>2\<^sup>1\<close>, the string is \<^verbatim>\<open>oklch(\<close>, three numbers with
  exactly four digits after the decimal point, separated by single spaces, and \<^verbatim>\<open>)\<close>.
\<close>

theorem output_shape_when_printable:
  assumes "regex_match oklchRegex (trim (getPropertyValue cssVariableName)) = Some [m, a, b, c]"
    and "parseFloat percentageModification = Inr pct"
    and "clamped_lightness (parseFloat_string a) pct \<noteq> NaN"
    and "num_less (parseFloat_string b) (Fin (10 ^ 21))"
    and "num_less (parseFloat_string c) (Fin (10 ^ 21))"
  shows "\<exists>s. fst (adjustOklchLightness getPropertyValue cssVariableName percentageModification)
               = Inr (Some s) \<and> output_shape s"
proof -
  have fx: "is_fixed4 (toFixed_digits (parseFloat_string x) 4)"
    if "is_decimal x" "num_less (parseFloat_string x) (Fin (10 ^ 21))" for x
  proof -
    from capture_number[OF that(1)] that(2)
    obtain v where v: "parseFloat_string x = Fin v" "0 \<le> v" "v < 10 ^ 21" by auto
    from toFixed_4_shape(1)[of v] v show ?thesis by (simp add: pow10_21)
  qed
  note d = match_decimals[OF assms(1)]
  let ?x = "num_sub (parseFloat_string a)
      (num_mul (parseFloat_string a) (num_div pct (Fin 100)))"
  have "?x \<noteq> NaN"
  proof
    assume "?x = NaN"
    then have "clamped_lightness (parseFloat_string a) pct = NaN"
      unfolding clamped_lightness_def by (simp add: clamp_simps)
    with assms(3) show False by simp
  qed
  from clamp_range[OF this]
  obtain v where v: "clamped_lightness (parseFloat_string a) pct = Fin v"
    "0 \<le> v" "v \<le> 1"
    unfolding clamped_lightness_def by blast
  from output_shape_I[OF toFixed_4_unit(1)[OF v(2,3)] fx[OF d(2) assms(4)] fx[OF d(3) assms(5)]]
  show ?thesis
    by (simp add: adjust_match[where g = getPropertyValue and n = cssVariableName, OF assms(1,2)] v(1))
qed

theorem output_shape_when_printable_witness:
  "regex_match oklchRegex (trim ''oklch(0.1 0.05 5)'') =
      Some [''oklch(0.1 0.05 5)'', ''0.1'', ''0.05'', ''5''] \<and>
   parseFloat (JString ''-500'') = Inr (Fin (- 500)) \<and>
   clamped_lightness (parseFloat_string ''0.1'') (Fin (- 500)) \<noteq> NaN \<and>
   num_less (parseFloat_string ''0.05'') (Fin (10 ^ 21)) \<and>
   num_less (parseFloat_string ''5'') (Fin (10 ^ 21)) \<and>
   (\<exists>s. fst (adjustOklchLightness (\<lambda>name. ''oklch(0.1 0.05 5)'') ''--primary-color'' (JString ''-500''))
               = Inr (Some s) \<and> output_shape s)"
proof -
  have 1: "regex_match oklchRegex (trim ((\<lambda>name. ''oklch(0.1 0.05 5)'') ''--primary-color'')) =
      Some [''oklch(0.1 0.05 5)'', ''0.1'', ''0.05'', ''5'']"
    by code_simp
  have 2: "parseFloat (JString ''-500'') = Inr (Fin (- 500))" by code_simp
  have 3: "clamped_lightness (parseFloat_string ''0.1'') (Fin (- 500)) \<noteq> NaN"
    by code_simp
  have 4: "num_less (parseFloat_string ''0.05'') (Fin (10 ^ 21))" by code_simp
  have 5: "num_less (parseFloat_string ''5'') (Fin (10 ^ 21))" by code_simp
  from output_shape_when_printable[where getPropertyValue = "\<lambda>name. ''oklch(0.1 0.05 5)''"
      and cssVariableName = "''--primary-color''" and percentageModification = "JString ''-500''",
      OF 1 2 3 4 5] 1 2 3 4 5
  show ?thesis by simp
qed

text \<open>
  Claim C6 as it was stated fails: \<^verbatim>\<open>toFixed\<close> prints a Number of \<open>10\<^sup>2\<^sup>1\<close> or more in exponent
  notation, so the chroma \<^verbatim>\<open>1000000000000000000000\<close> is printed as \<^verbatim>\<open>1e+21\<close>.
\<close>

theorem exponent_notation_counterexample:
  "parseFloat_string ''1000000000000000000000'' = Fin (10 ^ 21) \<and>
   fst (adjustOklchLightness (\<lambda>name. ''oklch(0.5 1000000000000000000000 30)'') ''--primary-color''
          (JString ''10''))
     = Inr (Some ''oklch(0.4500 1e+21 30.0000)'') \<and>
   \<not> output_shape ''oklch(0.4500 1e+21 30.0000)''"
  by code_simp

subsection \<open>Errors\<close>

text \<open>
  Claim C7, as amended. The function throws exactly when the trimmed property value contains a
  substring of the form \<^verbatim>\<open>oklch(a b c)\<close> and the conversion of the percentage argument to a
  string throws, and it then throws the error of that conversion. In every other case it
  returns normally, \<^verbatim>\<open>null\<close> or a string: for every percentage whose conversion to a string
  succeeds, in particular for every Number and every string, and for every percentage
  whatsoever when the property value does not match.
\<close>

theorem adjustOklchLightness_throws_iff:
  "(fst (adjustOklchLightness getPropertyValue cssVariableName percentageModification) = Inl e
      \<longleftrightarrow> (\<exists>pre m post a b c.
              trim (getPropertyValue cssVariableName) = pre @ m @ post \<and> oklch_form m a b c) \<and>
           ToString percentageModification = Inl e) \<and>
   (ToString percentageModification = Inr s \<longrightarrow>
      (\<exists>r. fst (adjustOklchLightness getPropertyValue cssVariableName percentageModification) = Inr r)) \<and>
   (\<exists>r. fst (adjustOklchLightness getPropertyValue cssVariableName (JNumber x)) = Inr r) \<and>
   (\<exists>r. fst (adjustOklchLightness getPropertyValue cssVariableName (JString t)) = Inr r)"
proof -
  have returns: "\<exists>r. fst (adjustOklchLightness getPropertyValue cssVariableName pm) = Inr r"
    if "parseFloat pm = Inr pct" for pm pct
  proof (cases "regex_match oklchRegex (trim (getPropertyValue cssVariableName))")
    case None
    then show ?thesis by (simp add: adjust_no_match)
  next
    case (Some arr)
    from regex_match_oklch_SomeD[OF this] obtain m a b c where "arr = [m, a, b, c]" by blast
    with Some that show ?thesis by (simp add: adjust_match)
  qed
  have throws: "fst (adjustOklchLightness getPropertyValue cssVariableName percentageModification) = Inl e
      \<longleftrightarrow> (\<exists>pre m post a b c.
              trim (getPropertyValue cssVariableName) = pre @ m @ post \<and> oklch_form m a b c) \<and>
           ToString percentageModification = Inl e"
  proof (cases "regex_match oklchRegex (trim (getPropertyValue cssVariableName))")
    case None
    then show ?thesis
      using regex_match_oklch_None_iff[of "trim (getPropertyValue cssVariableName)"]
      by (simp add: adjust_no_match)
  next
    case (Some arr)
    then have ex: "\<exists>pre m post a b c.
        trim (getPropertyValue cssVariableName) = pre @ m @ post \<and> oklch_form m a b c"
      using regex_match_oklch_None_iff[of "trim (getPropertyValue cssVariableName)"] by simp
    show ?thesis
    proof (cases "parseFloat percentageModification")
      case (Inl e')
      from adjust_throws[where g = getPropertyValue and n = cssVariableName, OF Some Inl]
      show ?thesis using ex Inl by (auto simp: parseFloat_Inl)
    next
      case (Inr pct)
      from returns[OF Inr] Inr ex show ?thesis by (auto simp: parseFloat_Inr)
    qed
  qed
  have "\<exists>r. fst (adjustOklchLightness getPropertyValue cssVariableName percentageModification) = Inr r"
    if "ToString percentageModification = Inr s"
    using returns[of percentageModification "parseFloat_string s"] that by (simp add: parseFloat_def)
  with throws returns[OF parseFloat_JNumber] returns[OF parseFloat_JString] show ?thesis by blast
qed

theorem adjustOklchLightness_throws_iff_witness:
  "(\<exists>pre m post a b c. trim ''oklch(0.5 0.1 30)'' = pre @ m @ post \<and> oklch_form m a b c) \<and>
   ToString (JObject (Inl (Thrown ''no string''))) = Inl (Thrown ''no string'') \<and>
   fst (adjustOklchLightness (\<lambda>name. ''oklch(0.5 0.1 30)'') ''--primary-color''
          (JObject (Inl (Thrown ''no string'')))) = Inl (Thrown ''no string'')"
proof -
  have "oklch_form ''oklch(0.5 0.1 30)'' ''0.5'' ''0.1'' ''30''"
    using oklch_formI[of "[]" "'' ''" "'' ''" "[]" "''0.5''" "''0.1''" "''30''"]
    by (simp add: is_space_def is_decimal_def is_digit_def)
  moreover have "trim ''oklch(0.5 0.1 30)'' = [] @ ''oklch(0.5 0.1 30)'' @ []" by code_simp
  ultimately have 1: "\<exists>pre m post a b c.
      trim ((\<lambda>name. ''oklch(0.5 0.1 30)'') ''--primary-color'') = pre @ m @ post \<and> oklch_form m a b c"
    by blast
  have 2: "ToString (JObject (Inl (Thrown ''no string''))) = Inl (Thrown ''no string'')" by simp
  from adjustOklchLightness_throws_iff[where getPropertyValue = "\<lambda>name. ''oklch(0.5 0.1 30)''"
      and cssVariableName = "''--primary-color''"
      and percentageModification = "JObject (Inl (Thrown ''no string''))"
      and e = "Thrown ''no string''"] 1 2
  have "fst (adjustOklchLightness (\<lambda>name. ''oklch(0.5 0.1 30)'') ''--primary-color''
          (JObject (Inl (Thrown ''no string'')))) = Inl (Thrown ''no string'')"
    by blast
  with 1 2 show ?thesis by simp
qed

text \<open>
  Claim C7 as it was stated fails: the percentage is converted by \<^verbatim>\<open>parseFloat\<close> on line 43, and
  for a Symbol the conversion to a string throws a TypeError, which the function does not
  catch.
\<close>

theorem symbol_percentage_counterexample:
  "regex_match oklchRegex (trim ''oklch(0.7 0.15 250)'') =
      Some [''oklch(0.7 0.15 250)'', ''0.7'', ''0.15'', ''250''] \<and>
   parseFloat JSymbol = Inl TypeError \<and>
   fst (adjustOklchLightness (\<lambda>name. ''oklch(0.7 0.15 250)'') ''--primary-color'' JSymbol)
     = Inl TypeError"
  by code_simp

text \<open>
  Claim C8. When the property value matches and the percentage argument is converted to NaN,
  the function returns a string: the lightness is printed as \<^verbatim>\<open>NaN\<close>, and chroma and hue are
  printed by \<^verbatim>\<open>toFixed(4)\<close> as for any other percentage.
\<close>

theorem nan_percentage_propagates:
  assumes "regex_match oklchRegex (trim (getPropertyValue cssVariableName)) = Some [m, a, b, c]"
    and "parseFloat percentageModification = Inr NaN"
  shows "fst (adjustOklchLightness getPropertyValue cssVariableName percentageModification) =
           Inr (Some (''oklch(NaN '' @ toFixed_digits (parseFloat_string b) 4 @ '' '' @
                      toFixed_digits (parseFloat_string c) 4 @ '')''))"
  using assms by (simp add: adjust_match clamped_lightness_NaN toFixed_digits_NaN)

theorem nan_percentage_propagates_witness:
  "regex_match oklchRegex (trim ''oklch(0.7 0.15 250)'') =
      Some [''oklch(0.7 0.15 250)'', ''0.7'', ''0.15'', ''250''] \<and>
   parseFloat (JString ''ten'') = Inr NaN \<and>
   fst (adjustOklchLightness (\<lambda>name. ''oklch(0.7 0.15 250)'') ''--primary-color'' (JString ''ten'')) =
     Inr (Some ''oklch(NaN 0.1500 250.0000)'')"
proof -
  have 1: "regex_match oklchRegex (trim ((\<lambda>name. ''oklch(0.7 0.15 250)'') ''--primary-color'')) =
      Some [''oklch(0.7 0.15 250)'', ''0.7'', ''0.15'', ''250'']"
    by code_simp
  have 2: "parseFloat (JString ''ten'') = Inr NaN" by code_simp
  have 3: "toFixed_digits (parseFloat_string ''0.15'') 4 = ''0.1500''" by code_simp
  have 4: "toFixed_digits (parseFloat_string ''250'') 4 = ''250.0000''" by code_simp
  from nan_percentage_propagates[where getPropertyValue = "\<lambda>name. ''oklch(0.7 0.15 250)''"
      and cssVariableName = "''--primary-color''", OF 1 2] 1 2
  show ?thesis
    by (simp add: 3 4)
qed

subsection \<open>The parsed sample\<close>

text \<open>
  Claim C9, as amended. Each of the three Numbers of a parsed sample is NaN or at least 0: the
  pattern admits no sign. No upper bound is enforced on lightness, chroma or hue.
\<close>

theorem parsed_sample_nonnegative:
  assumes "regex_match oklchRegex (trim (getPropertyValue cssVariableName)) = Some [m, a, b, c]"
  shows "(parseFloat_string a = NaN \<or> num_le (Fin 0) (parseFloat_string a)) \<and>
         (parseFloat_string b = NaN \<or> num_le (Fin 0) (parseFloat_string b)) \<and>
         (parseFloat_string c = NaN \<or> num_le (Fin 0) (parseFloat_string c))"
proof -
  have "parseFloat_string x = NaN \<or> num_le (Fin 0) (parseFloat_string x)" if "is_decimal x" for x
    using parseFloat_string_decimal[OF that]
    by (cases "parseFloat_string x") (auto simp: num_le_def)
  with match_decimals[OF assms] show ?thesis by blast
qed

theorem parsed_sample_nonnegative_witness:
  "regex_match oklchRegex (trim ''oklch(2 0.1 720)'') =
      Some [''oklch(2 0.1 720)'', ''2'', ''0.1'', ''720''] \<and>
   num_le (Fin 0) (parseFloat_string ''2'') \<and> num_le (Fin 0) (parseFloat_string ''0.1'') \<and>
   num_le (Fin 0) (parseFloat_string ''720'')"
proof -
  have 1: "regex_match oklchRegex (trim ((\<lambda>name. ''oklch(2 0.1 720)'') ''--primary-color'')) =
      Some [''oklch(2 0.1 720)'', ''2'', ''0.1'', ''720'']"
    by code_simp
  have 2: "parseFloat_string ''2'' \<noteq> NaN" "parseFloat_string ''0.1'' \<noteq> NaN"
    "parseFloat_string ''720'' \<noteq> NaN"
    by code_simp+
  from parsed_sample_nonnegative[where getPropertyValue = "\<lambda>name. ''oklch(2 0.1 720)''"
      and cssVariableName = "''--primary-color''", OF 1] 1 2
  show ?thesis by simp
qed

text \<open>
  Claim C9 as it was stated fails: \<^verbatim>\<open>oklch(2 0.1 720)\<close> is parsed, with the lightness 2 and the
  hue 720, and the function returns a string for it.
\<close>

theorem out_of_range_sample_counterexample:
  "regex_match oklchRegex (trim ''oklch(2 0.1 720)'') =
      Some [''oklch(2 0.1 720)'', ''2'', ''0.1'', ''720''] \<and>
   parseFloat_string ''2'' = Fin 2 \<and> parseFloat_string ''720'' = Fin 720 \<and>
   fst (adjustOklchLightness (\<lambda>name. ''oklch(2 0.1 720)'') ''--primary-color'' (JString ''10''))
     = Inr (Some ''oklch(1.0000 0.1000 720.0000)'')"
  by code_simp

subsection \<open>The unanchored pattern\<close>

text \<open>
  Claim C10. Whenever the property value contains a substring of the form \<^verbatim>\<open>oklch(a b c)\<close>,
  whatever stands before and after it, the function does not return \<^verbatim>\<open>null\<close>, whatever the
  percentage is, and it returns a string for every percentage that is converted to a Number,
  so for every Number and every string.
\<close>

theorem unanchored_match_returns_string:
  assumes "oklch_form m a b c" and "getPropertyValue cssVariableName = pre @ m @ post"
  shows "fst (adjustOklchLightness getPropertyValue cssVariableName percentageModification) \<noteq> Inr None \<and>
         (parseFloat percentageModification = Inr pct \<longrightarrow>
            (\<exists>s. fst (adjustOklchLightness getPropertyValue cssVariableName percentageModification)
                   = Inr (Some s))) \<and>
         (\<exists>s. fst (adjustOklchLightness getPropertyValue cssVariableName (JNumber x)) = Inr (Some s)) \<and>
         (\<exists>s. fst (adjustOklchLightness getPropertyValue cssVariableName (JString t)) = Inr (Some s))"
proof -
  from trim_keeps[OF oklch_form_ends(1-3)[OF assms(1)], of pre post] assms(2)
  obtain pre' post' where "trim (getPropertyValue cssVariableName) = pre' @ m @ post'" by auto
  with assms(1) have "regex_match oklchRegex (trim (getPropertyValue cssVariableName)) \<noteq> None"
    unfolding regex_match_oklch_None_iff by blast
  then obtain arr where arr: "regex_match oklchRegex (trim (getPropertyValue cssVariableName)) = Some arr"
    by auto
  from regex_match_oklch_SomeD[OF this] obtain m' a' b' c' where "arr = [m', a', b', c']" by blast
  note match = arr[unfolded this]
  have string: "\<exists>s. fst (adjustOklchLightness getPropertyValue cssVariableName pm) = Inr (Some s)"
    if "parseFloat pm = Inr q" for pm q
    using adjust_match[where g = getPropertyValue and n = cssVariableName, OF match that] by simp
  have "fst (adjustOklchLightness getPropertyValue cssVariableName percentageModification) \<noteq> Inr None"
  proof (cases "parseFloat percentageModification")
    case (Inl e)
    from adjust_throws[where g = getPropertyValue and n = cssVariableName, OF arr Inl]
    show ?thesis by simp
  next
    case (Inr q)
    from string[OF this] show ?thesis by auto
  qed
  with string[of percentageModification pct] string[OF parseFloat_JNumber] string[OF parseFloat_JString]
  show ?thesis by blast
qed

theorem unanchored_match_returns_string_witness:
  "oklch_form ''oklch(0.5 0.1 30)'' ''0.5'' ''0.1'' ''30'' \<and>
   (\<lambda>name. ''not-oklch(0.5 0.1 30)'') ''--primary-color'' = ''not-'' @ ''oklch(0.5 0.1 30)'' @ [] \<and>
   parseFloat (JNumber (Fin 10)) = Inr (Fin 10) \<and>
   (\<exists>s. fst (adjustOklchLightness (\<lambda>name. ''not-oklch(0.5 0.1 30)'') ''--primary-color'' (JNumber (Fin 10)))
          = Inr (Some s))"
proof -
  have 1: "oklch_form ''oklch(0.5 0.1 30)'' ''0.5'' ''0.1'' ''30''"
    using oklch_formI[of "[]" "'' ''" "'' ''" "[]" "''0.5''" "''0.1''" "''30''"]
    by (simp add: is_space_def is_decimal_def is_digit_def)
  have 2: "(\<lambda>name. ''not-oklch(0.5 0.1 30)'') ''--primary-color'' = ''not-'' @ ''oklch(0.5 0.1 30)'' @ []"
    by simp
  have 3: "parseFloat (JNumber (Fin 10)) = Inr (Fin 10)" by code_simp
  from unanchored_match_returns_string[where getPropertyValue = "\<lambda>name. ''not-oklch(0.5 0.1 30)''"
      and cssVariableName = "''--primary-color''" and pre = "''not-''" and post = "[]"
      and percentageModification = "JNumber (Fin 10)" and pct = "Fin 10", OF 1] 3
  have "\<exists>s. fst (adjustOklchLightness (\<lambda>name. ''not-oklch(0.5 0.1 30)'') ''--primary-color''
                   (JNumber (Fin 10))) = Inr (Some s)"
    by simp
  with 1 2 3 show ?thesis by blast
qed

end
